theory Spec2Isabelle
  imports Main
begin

section \<open>Data model of the Manager\<close>

text \<open>
  Objects are identified by their addresses: a \<^verbatim>\<open>ThinkerBase*\<close>, a
  \<^verbatim>\<open>shared_ptr<ThinkerRunner>\<close> and a \<^verbatim>\<open>QThread*\<close> are natural numbers, and the null
  pointer of a lookup is \<open>None\<close>. A \<^verbatim>\<open>codeplace\<close> is the source line of the \<^verbatim>\<open>HERE\<close> it
  stands for (or whatever the caller passed as \<^verbatim>\<open>cp\<close>).
\<close>

type_synonym thinker = nat
type_synonym runner = nat
type_synonym thread = nat
type_synonym codeplace = nat

text \<open>The user-visible state of a thinker, \<^verbatim>\<open>ThinkerBase::state\<close>, with the three
  enumerators thinkermanager.cpp reads and writes.\<close>

datatype ThinkerState = ThinkerOwnedByRunner | ThinkerFinished | ThinkerCanceled

text \<open>\<^verbatim>\<open>ThinkerRunner::State\<close> of thinkerrunner.h.\<close>

datatype State =
    RunnerInitializing
  | RunnerThinking
  | RunnerPausing
  | RunnerPaused
  | RunnerCanceling
  | RunnerCanceled
  | RunnerResuming
  | RunnerFinished

datatype mutex = MapsMutex | PushThreadMutex

datatype condition = ThreadsNeedPushing | ThreadsWerePushed

text \<open>The methods of a Runner that the Manager calls. The public slots of thinkerrunner.h
  forward to the cores with a flag: \<^verbatim>\<open>requestPauseButCanceledIsOkay(cp)\<close> is
  \<^verbatim>\<open>requestPauseCore(true, cp)\<close>, \<^verbatim>\<open>requestResume(cp)\<close> is \<^verbatim>\<open>requestResumeCore(false, cp)\<close>,
  and so on.\<close>

datatype runner_call =
    RequestPauseCore bool
  | WaitForPauseCore bool
  | RequestCancelCore bool
  | RequestResumeCore bool
  | WaitForResume
  | WaitForFinished
  | DoThreadPushIfNecessary

datatype runner_query = IsFinished | IsCanceled | IsPaused

text \<open>What a thread running Manager code does that another thread, a Runner or the pool
  can observe, in the order it does it.\<close>

datatype event =
    Locked mutex
  | Unlocked mutex
  | Call runner_call runner
  | Query runner_query runner bool
  | WakeOne condition
  | WakeAll condition
  | Wait condition
  | EmitPushToThreadMayBeNeeded
  | PoolStart runner
  | PoolWaitForDone

text \<open>
  The Manager and the objects it points to. \<open>thinkerMap\<close> is the
  \<^verbatim>\<open>QMap<const ThinkerBase*, shared_ptr<ThinkerRunner>>\<close>, kept as a list of pairs in key
  order (the order a \<^verbatim>\<open>QMapIterator\<close> visits); \<open>runnerSetToPush\<close> is the \<^verbatim>\<open>QSet\<close> of
  Runners waiting for a push, without duplicates; \<open>thinkerState\<close> is the field
  \<^verbatim>\<open>state\<close> of each thinker, \<open>runnerThinker\<close> is \<^verbatim>\<open>runner->getThinker()\<close> and
  \<open>runnerState\<close> the field \<^verbatim>\<open>state\<close> of each Runner; \<open>poolQueue\<close> holds the runnables
  handed to \<^verbatim>\<open>QThreadPool::globalInstance()\<close> that have not completed; \<open>events\<close> is
  the trace.
\<close>

record manager =
  managerThread :: thread
  thinkerMap :: "(thinker \<times> runner) list"
  runnerSetToPush :: "runner list"
  thinkerState :: "thinker \<Rightarrow> ThinkerState"
  runnerThinker :: "runner \<Rightarrow> thinker"
  runnerState :: "runner \<Rightarrow> State"
  poolQueue :: "runner list"
  events :: "event list"

text \<open>A call returns a value, dies in an assertion, or never returns (it waits for a
  wake-up that does not come). The state in which it does so is kept in all three cases.\<close>

datatype 'a outcome = Returns 'a | Asserts codeplace | Blocks

type_synonym 'a action = "manager \<Rightarrow> 'a outcome \<times> manager"

definition andThen :: "'a action \<Rightarrow> ('a \<Rightarrow> 'b action) \<Rightarrow> 'b action" where
  "andThen m f s =
     (case m s of
        (Returns a, s') \<Rightarrow> f a s'
      | (Asserts cp, s') \<Rightarrow> (Asserts cp, s')
      | (Blocks, s') \<Rightarrow> (Blocks, s'))"

definition log :: "event \<Rightarrow> manager \<Rightarrow> manager" where
  "log e s = s\<lparr>events := events s @ [e]\<rparr>"

text \<open>Modelled from the spec: \<^verbatim>\<open>hopefully\<close> belongs to the assertion helpers, which are
  not in the sources. Section 7 of the specification makes a failed assertion a
  programming error at a labeled source location, fatal and not recovered; a check that
  holds returns true to the caller.\<close>

definition hopefully :: "bool \<Rightarrow> codeplace \<Rightarrow> bool action" where
  "hopefully c cp s = (if c then (Returns True, s) else (Asserts cp, s))"

subsection \<open>The QMap and QSet operations the Manager uses\<close>

fun qmap_insert :: "nat \<Rightarrow> 'v \<Rightarrow> (nat \<times> 'v) list \<Rightarrow> (nat \<times> 'v) list" where
  "qmap_insert k v [] = [(k, v)]"
| "qmap_insert k v ((k', v') # m) =
     (if k < k' then (k, v) # (k', v') # m
      else if k = k' then (k, v) # m
      else (k', v') # qmap_insert k v m)"

definition qmap_contains :: "nat \<Rightarrow> (nat \<times> 'v) list \<Rightarrow> bool" where
  "qmap_contains k m = (map_of m k \<noteq> None)"

text \<open>\<^verbatim>\<open>QMap::remove\<close> returns the number of entries it removed.\<close>

definition qmap_remove :: "nat \<Rightarrow> (nat \<times> 'v) list \<Rightarrow> nat \<times> (nat \<times> 'v) list" where
  "qmap_remove k m = (length (filter (\<lambda>p. fst p = k) m), filter (\<lambda>p. fst p \<noteq> k) m)"

text \<open>\<^verbatim>\<open>QMap::value(key, nullptr)\<close>.\<close>

definition qmap_value :: "(nat \<times> 'v) list \<Rightarrow> nat \<Rightarrow> 'v option" where
  "qmap_value m k = map_of m k"

definition qset_insert :: "runner \<Rightarrow> runner list \<Rightarrow> runner list" where
  "qset_insert r q = (if r \<in> set q then q else q @ [r])"

section \<open>ThinkerManager\<close>

subsection \<open>Thread checks\<close>

text \<open>\<open>cur\<close> is \<^verbatim>\<open>QThread::currentThread()\<close>, the thread that makes the call.\<close>

definition hopefullyThreadIsManager :: "thread \<Rightarrow> codeplace \<Rightarrow> bool action" where
  "hopefullyThreadIsManager thread cp s = hopefully (thread = managerThread s) cp s"

definition hopefullyCurrentThreadIsManager :: "thread \<Rightarrow> codeplace \<Rightarrow> bool action" where
  "hopefullyCurrentThreadIsManager cur cp = hopefullyThreadIsManager cur cp"

definition hopefullyThreadIsNotManager :: "thread \<Rightarrow> codeplace \<Rightarrow> bool action" where
  "hopefullyThreadIsNotManager thread cp s = hopefully (thread \<noteq> managerThread s) cp s"

definition hopefullyCurrentThreadIsNotManager :: "thread \<Rightarrow> codeplace \<Rightarrow> bool action" where
  "hopefullyCurrentThreadIsNotManager cur cp = hopefullyThreadIsNotManager cur cp"

text \<open>\<^verbatim>\<open>ThinkerRunner::hopefullyCurrentThreadIsPooled\<close> of thinkerrunner.h: the call to the
  Manager's check is commented out and the body is \<^verbatim>\<open>return true\<close>.\<close>

definition hopefullyCurrentThreadIsPooled :: "runner \<Rightarrow> thread \<Rightarrow> codeplace \<Rightarrow> bool action" where
  "hopefullyCurrentThreadIsPooled runner cur cp s = (Returns True, s)"

subsection \<open>The maps\<close>

text \<open>\<^verbatim>\<open>addToThinkerMap\<close> (lines 240 to 250), \<^verbatim>\<open>removeFromThinkerMap\<close> (lines 253 to 266) and
  \<^verbatim>\<open>maybeGetRunnerForThinker\<close> (lines 161 to 173). Each holds the maps mutex from its first
  statement to its return; an assertion that fails is reported with the line on which
  its \<^verbatim>\<open>hopefully\<close> call begins (166 for the call that spans lines 166 to 170).\<close>

definition addToThinkerMap :: "runner \<Rightarrow> unit action" where
  "addToThinkerMap runner s =
     (let s1 = log (Locked MapsMutex) s;
          thinker = runnerThinker s1 runner
      in if qmap_contains thinker (thinkerMap s1) then (Asserts 248, s1)
         else (Returns (),
               log (Unlocked MapsMutex)
                 (s1\<lparr>thinkerMap := qmap_insert thinker runner (thinkerMap s1)\<rparr>)))"

definition removeFromThinkerMap :: "runner \<Rightarrow> bool \<Rightarrow> unit action" where
  "removeFromThinkerMap runner wasCanceled s =
     (let s1 = log (Locked MapsMutex) s;
          thinker = runnerThinker s1 runner;
          removed = qmap_remove thinker (thinkerMap s1);
          s2 = s1\<lparr>thinkerMap := snd removed\<rparr>
      in if fst removed \<noteq> 1 then (Asserts 260, s2)
         else if thinkerState s2 thinker \<noteq> ThinkerOwnedByRunner then (Asserts 262, s2)
         else (Returns (),
               log (Unlocked MapsMutex)
                 (s2\<lparr>thinkerState := (thinkerState s2)
                    (thinker := if wasCanceled then ThinkerCanceled else ThinkerFinished)\<rparr>)))"

definition maybeGetRunnerForThinker :: "thinker \<Rightarrow> runner option action" where
  "maybeGetRunnerForThinker thinker s =
     (let s1 = log (Locked MapsMutex) s;
          result = qmap_value (thinkerMap s1) thinker
      in if result = None
            \<and> \<not> (thinkerState s1 thinker = ThinkerCanceled
                  \<or> thinkerState s1 thinker = ThinkerFinished)
         then (Asserts 166, s1)
         else (Returns result, log (Unlocked MapsMutex) s1))"

text \<open>A sequence of the two operations on ThinkerMap, stopped by the first assertion
  that fails.\<close>

datatype mapOp = AddToThinkerMap runner | RemoveFromThinkerMap runner bool

fun applyOp :: "mapOp \<Rightarrow> unit action" where
  "applyOp (AddToThinkerMap r) = addToThinkerMap r"
| "applyOp (RemoveFromThinkerMap r wasCanceled) = removeFromThinkerMap r wasCanceled"

fun runOps :: "mapOp list \<Rightarrow> unit action" where
  "runOps [] s = (Returns (), s)"
| "runOps (x # xs) s =
     (case applyOp x s of
        (Returns u, s') \<Rightarrow> runOps xs s'
      | (Asserts cp, s') \<Rightarrow> (Asserts cp, s')
      | (Blocks, s') \<Rightarrow> (Blocks, s'))"

subsection \<open>The Runner as the Manager sees it\<close>

text \<open>
  The bodies of the Runner's methods (thinkerrunner.cpp) are not in the sources, and a
  call to one of them is a point at which other threads run. A \<open>runner_impl\<close> is the
  parameter that stands for both: what the shared state is by the time the call returns,
  or that the call dies in an assertion, or that it never returns. The trace is the
  caller's: the call is logged and the callee cannot rewrite it.
\<close>

type_synonym runner_impl = "runner_call \<Rightarrow> runner \<Rightarrow> manager \<Rightarrow> manager outcome"

definition callRunner :: "runner_impl \<Rightarrow> runner_call \<Rightarrow> runner \<Rightarrow> unit action" where
  "callRunner impl c r s =
     (let s1 = log (Call c r) s
      in case impl c r s1 of
           Returns s' \<Rightarrow> (Returns (), s'\<lparr>events := events s1\<rparr>)
         | Asserts cp \<Rightarrow> (Asserts cp, s1)
         | Blocks \<Rightarrow> (Blocks, s1))"

text \<open>Modelled from the spec: \<^verbatim>\<open>isFinished\<close>, \<^verbatim>\<open>isCanceled\<close> and \<^verbatim>\<open>isPaused\<close> are declared in
  thinkerrunner.h and their bodies are missing. Section 4.2 makes each predicate a
  snapshot of the Runner's state under the signal mutex.\<close>

definition queryRunner :: "runner_query \<Rightarrow> runner \<Rightarrow> bool action" where
  "queryRunner q r s =
     (let b = (case q of
                 IsFinished \<Rightarrow> runnerState s r = RunnerFinished
               | IsCanceled \<Rightarrow> runnerState s r = RunnerCanceled
               | IsPaused \<Rightarrow> runnerState s r = RunnerPaused)
      in (Returns b, log (Query q r b) s))"

text \<open>A loop over the Runners a \<^verbatim>\<open>QMapIterator\<close> visits; the first call that does not
  return ends it.\<close>

fun forEachRunner :: "(runner \<Rightarrow> unit action) \<Rightarrow> runner list \<Rightarrow> unit action" where
  "forEachRunner f [] s = (Returns (), s)"
| "forEachRunner f (r # rs) s =
     (case f r s of
        (Returns u, s') \<Rightarrow> forEachRunner f rs s'
      | (Asserts cp, s') \<Rightarrow> (Asserts cp, s')
      | (Blocks, s') \<Rightarrow> (Blocks, s'))"

subsection \<open>createRunnerForThinker\<close>

text \<open>Modelled from the spec: the constructor of \<^verbatim>\<open>ThinkerRunner\<close> is not in the sources.
  Section 3 has a Runner created by the Manager in state Initializing with a reference
  to its Thinker. \<open>runner\<close> is the address \<^verbatim>\<open>new\<close> returns.\<close>

definition newThinkerRunner :: "runner \<Rightarrow> thinker \<Rightarrow> unit action" where
  "newThinkerRunner runner holder s =
     (Returns (),
      s\<lparr>runnerThinker := (runnerThinker s)(runner := holder),
        runnerState := (runnerState s)(runner := RunnerInitializing)\<rparr>)"

text \<open>Modelled from the spec: the constructor of \<^verbatim>\<open>ThinkerRunnerProxy\<close> is not in the sources.
  The comment in \<^verbatim>\<open>createRunnerForThinker\<close> says that Runners insert themselves into the
  Manager's table on construction, and section 4.1 that create-runner-for inserts the
  Runner into ThinkerMap under the maps mutex before it submits it: the constructor
  calls \<^verbatim>\<open>addToThinkerMap\<close>.\<close>

definition newThinkerRunnerProxy :: "runner \<Rightarrow> unit action" where
  "newThinkerRunnerProxy runner = addToThinkerMap runner"

text \<open>\<^verbatim>\<open>QThreadPool::globalInstance()->start(runnerProxy)\<close> queues the runnable.\<close>

definition poolStart :: "runner \<Rightarrow> unit action" where
  "poolStart runner s = (Returns (), log (PoolStart runner) (s\<lparr>poolQueue := poolQueue s @ [runner]\<rparr>))"

definition createRunnerForThinker :: "thread \<Rightarrow> thinker \<Rightarrow> codeplace \<Rightarrow> runner \<Rightarrow> unit action" where
  "createRunnerForThinker cur holder cp runner =
     andThen (hopefullyCurrentThreadIsManager cur cp) (\<lambda>ok.
     andThen (newThinkerRunner runner holder) (\<lambda>u.
     andThen (newThinkerRunnerProxy runner) (\<lambda>u.
     poolStart runner)))"

subsection \<open>ensureThinkersPaused and ensureThinkersResumed\<close>

text \<open>\<^verbatim>\<open>ensureThinkersPaused\<close> (lines 109 to 136): the map is copied between lock and unlock,
  and both passes run over the copy.\<close>

definition ensureThinkersPaused :: "runner_impl \<Rightarrow> thread \<Rightarrow> codeplace \<Rightarrow> unit action" where
  "ensureThinkersPaused impl cur cp =
     andThen (hopefullyCurrentThreadIsManager cur 111) (\<lambda>ok s.
       let s1 = log (Locked MapsMutex) s;
           mapCopy = thinkerMap s1;
           s2 = log (Unlocked MapsMutex) s1
       in andThen (forEachRunner (callRunner impl (RequestPauseCore True)) (map snd mapCopy)) (\<lambda>u.
          forEachRunner (callRunner impl (WaitForPauseCore True)) (map snd mapCopy)) s2)"

text \<open>The body of the loop of \<^verbatim>\<open>ensureThinkersResumed\<close> (lines 138 to 152), and the function:
  the locker is released when the function returns.\<close>

definition resumeIfPaused :: "runner_impl \<Rightarrow> runner \<Rightarrow> unit action" where
  "resumeIfPaused impl runner =
     andThen (queryRunner IsPaused runner) (\<lambda>paused.
       if paused then callRunner impl (RequestResumeCore True) runner
       else (\<lambda>s. (Returns (), s)))"

definition ensureThinkersResumed :: "runner_impl \<Rightarrow> thread \<Rightarrow> codeplace \<Rightarrow> unit action" where
  "ensureThinkersResumed impl cur cp =
     andThen (hopefullyCurrentThreadIsManager cur 140) (\<lambda>ok s.
       let s1 = log (Locked MapsMutex) s
       in andThen (forEachRunner (resumeIfPaused impl) (map snd (thinkerMap s1))) (\<lambda>u s2.
            (Returns (), log (Unlocked MapsMutex) s2)) s1)"

subsection \<open>requestAndWaitForCancelButAlreadyCanceledIsOkay and ensureThinkerFinished\<close>

text \<open>The assignment \<^verbatim>\<open>thinker.state = v\<close>.\<close>

definition setThinkerState :: "thinker \<Rightarrow> ThinkerState \<Rightarrow> unit action" where
  "setThinkerState thinker v s = (Returns (), s\<lparr>thinkerState := (thinkerState s)(thinker := v)\<rparr>)"


text \<open>The block of \<^verbatim>\<open>ensureThinkerFinished\<close> for a Runner that exists (lines 203 to 218), and
  the function (lines 198 to 221).\<close>

definition finishRunner :: "runner_impl \<Rightarrow> thinker \<Rightarrow> runner \<Rightarrow> unit action" where
  "finishRunner impl thinker r =
     andThen (queryRunner IsCanceled r) (\<lambda>canceled.
     andThen (hopefully (\<not> canceled) 205) (\<lambda>ok.
     andThen (queryRunner IsPaused r) (\<lambda>paused.
     andThen (if paused
              then andThen (callRunner impl (RequestResumeCore False) r) (\<lambda>u.
                   callRunner impl WaitForResume r)
              else (\<lambda>s. (Returns (), s))) (\<lambda>u.
     andThen (callRunner impl WaitForFinished r) (\<lambda>u.
     andThen (queryRunner IsFinished r) (\<lambda>finished.
     andThen (hopefully finished 216) (\<lambda>ok.
     setThinkerState thinker ThinkerFinished)))))))"

definition ensureThinkerFinished :: "runner_impl \<Rightarrow> thread \<Rightarrow> thinker \<Rightarrow> unit action" where
  "ensureThinkerFinished impl cur thinker =
     andThen (hopefullyCurrentThreadIsManager cur 200) (\<lambda>ok.
     andThen (maybeGetRunnerForThinker thinker) (\<lambda>runner.
     andThen (case runner of
                Some r \<Rightarrow> finishRunner impl thinker r
              | None \<Rightarrow> (\<lambda>s. (Returns (), s))) (\<lambda>u s.
     andThen (hopefully (thinkerState s thinker = ThinkerFinished) 220) (\<lambda>ok s'.
       (Returns (), s')) s)))"

subsection \<open>The push protocol\<close>

text \<open>
  \<^verbatim>\<open>QWaitCondition::wait(&mutex)\<close> gives the mutex up and sleeps until another thread wakes
  the condition; it returns with the mutex locked again. \<open>others\<close> is what the other
  threads have made of the shared state by the time the sleeper is woken, and \<open>None\<close>
  when no wake-up ever comes.
\<close>

definition waitCondition ::
    "condition \<Rightarrow> mutex \<Rightarrow> (manager \<Rightarrow> manager option) \<Rightarrow> unit action" where
  "waitCondition c m others s =
     (let s1 = log (Wait c) s
      in case others s1 of
           None \<Rightarrow> (Blocks, s1)
         | Some s' \<Rightarrow> (Returns (), log (Locked m) s'))"

definition waitForPushToThread ::
    "thread \<Rightarrow> runner \<Rightarrow> (manager \<Rightarrow> manager option) \<Rightarrow> unit action" where
  "waitForPushToThread cur runner others =
     andThen (hopefullyCurrentThreadIsNotManager cur 291) (\<lambda>ok s.
       let s1 = log (Locked PushThreadMutex) s;
           s2 = s1\<lparr>runnerSetToPush := qset_insert runner (runnerSetToPush s1)\<rparr>;
           s3 = log (WakeOne ThreadsNeedPushing) s2;
           s4 = log EmitPushToThreadMayBeNeeded s3
       in andThen (waitCondition ThreadsWerePushed PushThreadMutex others) (\<lambda>u s5.
            (Returns (), log (Unlocked PushThreadMutex) s5)) s4)"

text \<open>One pass of the body of the \<^verbatim>\<open>forever\<close> loop, up to the test that leaves it: the
  \<^verbatim>\<open>foreach\<close> over the set, \<^verbatim>\<open>clear\<close> and \<^verbatim>\<open>wakeAll\<close>. The result is \<^verbatim>\<open>found\<close>.

  Modelled from the spec: \<^verbatim>\<open>doThreadPushIfNecessary\<close> is a method of the Runner whose body
  is missing; by section 4.3 it performs the affinity move of the thinker, which
  involves no field of the Manager, so the call is an event of the trace.\<close>

definition drainPushes :: "runner option \<Rightarrow> manager \<Rightarrow> bool \<times> manager" where
  "drainPushes runner s =
     (let toPush = runnerSetToPush s;
          found = (case runner of None \<Rightarrow> False | Some r \<Rightarrow> r \<in> set toPush);
          s1 = s\<lparr>events := events s @ map (Call DoThreadPushIfNecessary) toPush\<rparr>;
          s2 = s1\<lparr>runnerSetToPush := []\<rparr>
      in (found, log (WakeAll ThreadsWerePushed) s2))"

text \<open>What the workers of the Runners in \<open>batch\<close> do to the set while the controller sleeps:
  each goes through the insertion of \<^verbatim>\<open>waitForPushToThread\<close>.\<close>

definition workersArrive :: "runner list \<Rightarrow> manager \<Rightarrow> manager option" where
  "workersArrive batch s =
     Some (s\<lparr>runnerSetToPush := foldl (\<lambda>q r. qset_insert r q) (runnerSetToPush s) batch\<rparr>)"

text \<open>The \<^verbatim>\<open>forever\<close> loop. \<open>arrivals\<close> lists, for each wait on \<^verbatim>\<open>threadsNeedPushing\<close>,
  the Runners whose workers went through \<^verbatim>\<open>waitForPushToThread\<close> before the controller
  woke up; when the list is used up no worker comes any more and the wait never ends.\<close>

fun pushLoop :: "runner option \<Rightarrow> runner list list \<Rightarrow> unit action" where
  "pushLoop runner [] s =
     (case drainPushes runner s of (found, s') \<Rightarrow>
        if found \<or> runner = None then (Returns (), log (Unlocked PushThreadMutex) s')
        else waitCondition ThreadsNeedPushing PushThreadMutex (\<lambda>s. None) s')"
| "pushLoop runner (batch # later) s =
     (case drainPushes runner s of (found, s') \<Rightarrow>
        if found \<or> runner = None then (Returns (), log (Unlocked PushThreadMutex) s')
        else (case waitCondition ThreadsNeedPushing PushThreadMutex (workersArrive batch) s' of
                (Returns u, s'') \<Rightarrow> pushLoop runner later s''
              | (Asserts cp, s'') \<Rightarrow> (Asserts cp, s'')
              | (Blocks, s'') \<Rightarrow> (Blocks, s'')))"

definition processThreadPushesUntil ::
    "thread \<Rightarrow> runner option \<Rightarrow> runner list list \<Rightarrow> unit action" where
  "processThreadPushesUntil cur runner arrivals =
     andThen (hopefullyCurrentThreadIsManager cur 303) (\<lambda>ok s.
       pushLoop runner arrivals (log (Locked PushThreadMutex) s))"

definition doThreadPushesIfNecessary :: "thread \<Rightarrow> unit action" where
  "doThreadPushesIfNecessary cur = processThreadPushesUntil cur None []"

subsection \<open>The destructor\<close>

text \<open>\<^verbatim>\<open>QThreadPool::waitForDone()\<close> returns when the pool has no work left.\<close>

definition poolWaitForDone :: "unit action" where
  "poolWaitForDone s = (Returns (), log PoolWaitForDone (s\<lparr>poolQueue := []\<rparr>))"

text \<open>The body of the loop: \<^verbatim>\<open>hopefully(runner->isCanceled() or runner->isFinished(), HERE)\<close>,
  where \<^verbatim>\<open>or\<close> asks the second question only when the first is answered no.\<close>

definition hopefullyTerminal :: "runner \<Rightarrow> bool action" where
  "hopefullyTerminal runner =
     andThen (queryRunner IsCanceled runner) (\<lambda>canceled.
     andThen (if canceled then (\<lambda>s. (Returns True, s)) else queryRunner IsFinished runner) (\<lambda>terminal.
     hopefully terminal 342))"

fun destructorLoop :: "runner list \<Rightarrow> bool \<Rightarrow> bool action" where
  "destructorLoop [] anyRunners s = (Returns anyRunners, s)"
| "destructorLoop (runner # rest) anyRunners s =
     (case hopefullyTerminal runner s of
        (Returns ok, s') \<Rightarrow> destructorLoop rest True s'
      | (Asserts cp, s') \<Rightarrow> (Asserts cp, s')
      | (Blocks, s') \<Rightarrow> (Blocks, s'))"

text \<open>\<^verbatim>\<open>ThinkerManager::~ThinkerManager\<close>.\<close>

definition destroyThinkerManager :: "thread \<Rightarrow> unit action" where
  "destroyThinkerManager cur =
     andThen (hopefullyCurrentThreadIsManager cur 330) (\<lambda>ok s.
       let s1 = log (Locked MapsMutex) s
       in andThen (destructorLoop (map snd (thinkerMap s1)) False) (\<lambda>anyRunners s2.
            let s3 = log (Unlocked MapsMutex) s2
            in if anyRunners then poolWaitForDone s3 else (Returns (), s3)) s1)"

section \<open>The Runner of the specification\<close>

text \<open>
  Modelled from the spec: thinkerrunner.cpp is not in the sources. The theorems below hold
  for every \<open>runner_impl\<close>; the instances they are tried on follow section 4.2 of the
  specification. A request moves the Runner's state along the listed edges (an assertion
  of the missing file is reported at codeplace 0):
  \<^item> request-pause: Thinking becomes Pausing; Canceled with the flag, and Canceling, are
    accepted without effect; anything else is an assertion;
  \<^item> request-cancel: Thinking and Pausing become Canceling, Paused and Finished become
    Canceled; with the flag a Runner that is Canceled, or Canceling after an earlier
    request, is accepted as it is (section 8, property 5: a second request after a first
    is equivalent to one); anything else is an assertion;
  \<^item> request-resume: Paused becomes Resuming; any other state is a no-op with the flag
    and an assertion without it.
\<close>

fun requestTransition :: "runner_call \<Rightarrow> State \<Rightarrow> State outcome" where
  "requestTransition (RequestPauseCore allow) st =
     (if st = RunnerThinking then Returns RunnerPausing
      else if st = RunnerCanceled \<and> allow then Returns RunnerCanceled
      else if st = RunnerCanceling then Returns RunnerCanceling
      else Asserts 0)"
| "requestTransition (RequestCancelCore allow) st =
     (if st = RunnerThinking \<or> st = RunnerPausing then Returns RunnerCanceling
      else if st = RunnerPaused \<or> st = RunnerFinished then Returns RunnerCanceled
      else if (st = RunnerCanceled \<or> st = RunnerCanceling) \<and> allow then Returns st
      else Asserts 0)"
| "requestTransition (RequestResumeCore allow) st =
     (if st = RunnerPaused then Returns RunnerResuming
      else if allow then Returns st
      else Asserts 0)"
| "requestTransition c st = Returns st"

text \<open>Modelled from the spec: what a wait waits for (section 4.2). wait-for-pause ends in
  Paused or Canceled, wait-for-resume when the state has left Resuming, wait-for-finished
  in Finished or Canceled.\<close>

fun waitIsOver :: "runner_call \<Rightarrow> State \<Rightarrow> bool" where
  "waitIsOver (WaitForPauseCore allow) st = (st = RunnerPaused \<or> st = RunnerCanceled)"
| "waitIsOver WaitForResume st = (st \<noteq> RunnerResuming)"
| "waitIsOver WaitForFinished st = (st = RunnerFinished \<or> st = RunnerCanceled)"
| "waitIsOver c st = True"

text \<open>Modelled from the spec: the calls of section 4.2 that wait, as opposed to the
  requests.\<close>

fun isWait :: "runner_call \<Rightarrow> bool" where
  "isWait (WaitForPauseCore allow) = True"
| "isWait WaitForResume = True"
| "isWait WaitForFinished = True"
| "isWait c = False"

text \<open>Modelled from the spec: \<open>worker r s\<close> is the state the worker thread of Runner \<open>r\<close>
  (and any other thread) has brought about by the time a waiting caller looks again. The
  wait returns when its condition holds then, and never otherwise; wait-for-pause without
  the flag asserts on a Canceled Runner.\<close>

definition specRunner :: "(runner \<Rightarrow> manager \<Rightarrow> manager) \<Rightarrow> runner_impl" where
  "specRunner worker c r s =
     (if isWait c then
        (let s' = worker r s
         in if \<not> waitIsOver c (runnerState s' r) then Blocks
            else if c = WaitForPauseCore False \<and> runnerState s' r = RunnerCanceled then Asserts 0
            else Returns s')
      else
        (case requestTransition c (runnerState s r) of
           Returns st \<Rightarrow> Returns (s\<lparr>runnerState := (runnerState s)(r := st)\<rparr>)
         | Asserts cp \<Rightarrow> Asserts cp
         | Blocks \<Rightarrow> Blocks))"

text \<open>Modelled from the spec: step 8 of the worker body. On its way out the worker removes
  the Runner from ThinkerMap, which writes the thinker's state.\<close>

definition workerExit :: "runner \<Rightarrow> bool \<Rightarrow> manager \<Rightarrow> manager" where
  "workerExit r wasCanceled s =
     (if qmap_contains (runnerThinker s r) (thinkerMap s) then snd (removeFromThinkerMap r wasCanceled s)
      else s)"

text \<open>Modelled from the spec: a worker whose body polls (steps 5 to 8 of the worker body):
  a pending pause is reached, a resume is taken up, a pending cancel unwinds the body, a
  thinking body runs to its end.\<close>

definition cooperativeWorker :: "runner \<Rightarrow> manager \<Rightarrow> manager" where
  "cooperativeWorker r s =
     (case runnerState s r of
        RunnerPausing \<Rightarrow> s\<lparr>runnerState := (runnerState s)(r := RunnerPaused)\<rparr>
      | RunnerResuming \<Rightarrow> s\<lparr>runnerState := (runnerState s)(r := RunnerThinking)\<rparr>
      | RunnerCanceling \<Rightarrow> workerExit r True (s\<lparr>runnerState := (runnerState s)(r := RunnerCanceled)\<rparr>)
      | RunnerCanceled \<Rightarrow> workerExit r True s
      | RunnerThinking \<Rightarrow> workerExit r False (s\<lparr>runnerState := (runnerState s)(r := RunnerFinished)\<rparr>)
      | RunnerFinished \<Rightarrow> workerExit r False s
      | RunnerInitializing \<Rightarrow> s
      | RunnerPaused \<Rightarrow> s)"

text \<open>Modelled from the spec: a worker whose body never polls (section 5: such a body
  cannot be canceled) does nothing a waiting caller could see.\<close>

definition idleWorker :: "runner \<Rightarrow> manager \<Rightarrow> manager" where
  "idleWorker r s = s"

text \<open>Modelled from the spec: while the controller waits, a Handle thread requests the
  cancel of the Runner and the polling body unwinds: the Runner is Canceled and gone from
  ThinkerMap when the controller looks again.\<close>

definition canceledMeanwhile :: "runner \<Rightarrow> manager \<Rightarrow> manager" where
  "canceledMeanwhile r s = workerExit r True (s\<lparr>runnerState := (runnerState s)(r := RunnerCanceled)\<rparr>)"

section \<open>Example states\<close>

text \<open>A Manager just constructed on thread 2: nothing is registered. The state of every
  thinker is \<^verbatim>\<open>ThinkerOwnedByRunner\<close>, the value \<^verbatim>\<open>removeFromThinkerMap\<close> requires when a
  Runner ends and that no function of thinkermanager.cpp writes.\<close>

definition freshManager :: manager where
  "freshManager =
     \<lparr>managerThread = 2, thinkerMap = [], runnerSetToPush = [],
      thinkerState = (\<lambda>t. ThinkerOwnedByRunner), runnerThinker = (\<lambda>r. 0),
      runnerState = (\<lambda>r. RunnerInitializing), poolQueue = [], events = []\<rparr>"

text \<open>Runner 7 is registered for thinker 3 and runs in state \<open>st\<close>; Runner 8 is not
  registered.\<close>

definition oneRunner :: "State \<Rightarrow> manager" where
  "oneRunner st =
     \<lparr>managerThread = 2, thinkerMap = [(3, 7)], runnerSetToPush = [],
      thinkerState = (\<lambda>t. ThinkerOwnedByRunner), runnerThinker = (\<lambda>r. if r = 7 then 3 else 4),
      runnerState = (\<lambda>r. st), poolQueue = [7], events = []\<rparr>"

text \<open>Thinkers 3 and 5 have Runners 7 and 9, in states \<open>st7\<close> and \<open>st9\<close>.\<close>

definition twoRunners :: "State \<Rightarrow> State \<Rightarrow> manager" where
  "twoRunners st7 st9 =
     \<lparr>managerThread = 2, thinkerMap = [(3, 7), (5, 9)], runnerSetToPush = [],
      thinkerState = (\<lambda>t. ThinkerOwnedByRunner), runnerThinker = (\<lambda>r. if r = 7 then 3 else 5),
      runnerState = (\<lambda>r. if r = 7 then st7 else st9),
      poolQueue = [7, 9], events = []\<rparr>"

text \<open>Thinkers 3, 5 and 6 have Runners 7, 9 and 11: the first thinks, the second is
  paused, the third is canceled.\<close>

definition threeRunners :: manager where
  "threeRunners =
     \<lparr>managerThread = 2, thinkerMap = [(3, 7), (5, 9), (6, 11)], runnerSetToPush = [],
      thinkerState = (\<lambda>t. ThinkerOwnedByRunner),
      runnerThinker = (\<lambda>r. if r = 7 then 3 else if r = 9 then 5 else 6),
      runnerState = (\<lambda>r. if r = 7 then RunnerThinking
                          else if r = 9 then RunnerPaused else RunnerCanceled),
      poolQueue = [7, 9, 11], events = []\<rparr>"

text \<open>The same Manager when every thinker has finished.\<close>

definition finishedManager :: manager where
  "finishedManager = freshManager\<lparr>thinkerState := (\<lambda>t. ThinkerFinished)\<rparr>"

text \<open>The controller answering the queued notification: it runs
  \<^verbatim>\<open>doThreadPushesIfNecessary\<close> while the worker sleeps.\<close>

definition controllerPushes :: "manager \<Rightarrow> manager option" where
  "controllerPushes s =
     (case doThreadPushesIfNecessary (managerThread s) s of
        (Returns u, s') \<Rightarrow> Some s'
      | (Asserts cp, s') \<Rightarrow> None
      | (Blocks, s') \<Rightarrow> None)"

text \<open>A fresh Manager in which Runner 7 waits for its push.\<close>

definition onePending :: manager where
  "onePending = freshManager\<lparr>runnerSetToPush := [7]\<rparr>"

section \<open>Properties of the Manager's states\<close>

text \<open>Map/state coherence for one thinker, as the specification words it: the thinker is
  a key of ThinkerMap if and only if its state is Owned-By-Runner.\<close>

definition coherent :: "manager \<Rightarrow> thinker \<Rightarrow> bool" where
  "coherent s t = (qmap_contains t (thinkerMap s) = (thinkerState s t = ThinkerOwnedByRunner))"

text \<open>One half of it: every key of ThinkerMap is a thinker in state Owned-By-Runner.\<close>

definition keysOwned :: "manager \<Rightarrow> bool" where
  "keysOwned s = list_all (\<lambda>p. thinkerState s (fst p) = ThinkerOwnedByRunner) (thinkerMap s)"

text \<open>The other half, for one thinker: unless its state is terminal, it is a key.\<close>

definition ownedIsKey :: "manager \<Rightarrow> thinker \<Rightarrow> bool" where
  "ownedIsKey s t = (thinkerState s t \<noteq> ThinkerOwnedByRunner \<or> qmap_contains t (thinkerMap s))"

text \<open>Along a sequence of operations, every \<^verbatim>\<open>addToThinkerMap\<close> is given a Runner whose
  thinker is in state Owned-By-Runner at that moment.\<close>

fun addsOwned :: "mapOp list \<Rightarrow> manager \<Rightarrow> bool" where
  "addsOwned [] s = True"
| "addsOwned (AddToThinkerMap r # xs) s =
     (thinkerState s (runnerThinker s r) = ThinkerOwnedByRunner
      \<and> addsOwned xs (snd (addToThinkerMap r s)))"
| "addsOwned (RemoveFromThinkerMap r c # xs) s = addsOwned xs (snd (removeFromThinkerMap r c s))"

text \<open>The Manager after Runner 7 was created for thinker 3, was canceled, and its worker
  took it out of ThinkerMap.\<close>

definition afterRunnerLeft :: manager where
  "afterRunnerLeft =
     snd (removeFromThinkerMap 7 True
            ((snd (createRunnerForThinker 2 3 0 7 freshManager))
               \<lparr>runnerState := (\<lambda>r. RunnerCanceled)\<rparr>))"

text \<open>The events of \<^verbatim>\<open>ensureThinkersResumed\<close> for the Runners it inspected, paired with what
  \<^verbatim>\<open>isPaused\<close> answered: the question, followed by the resume request when the answer was
  yes.\<close>

definition resumeEvents :: "(runner \<times> bool) list \<Rightarrow> event list" where
  "resumeEvents inspected =
     concat (map (\<lambda>p. Query IsPaused (fst p) (snd p)
                        # (if snd p then [Call (RequestResumeCore True) (fst p)] else []))
                 inspected)"

text \<open>A resume request that returns has changed the state of no Runner but the one it was
  sent to.\<close>

definition resumeIsLocal :: "runner_impl \<Rightarrow> bool" where
  "resumeIsLocal impl =
     (\<forall>r s s'. impl (RequestResumeCore True) r s = Returns s' \<longrightarrow>
        (\<forall>r'. r' \<noteq> r \<longrightarrow> runnerState s' r' = runnerState s r'))"




text \<open>The terminal states of a Runner, and the questions the destructor asks a Runner.\<close>

definition isTerminal :: "State \<Rightarrow> bool" where
  "isTerminal st = (st = RunnerCanceled \<or> st = RunnerFinished)"

definition terminalQueries :: "manager \<Rightarrow> runner \<Rightarrow> event list" where
  "terminalQueries s r =
     (if runnerState s r = RunnerCanceled then [Query IsCanceled r True]
      else [Query IsCanceled r False, Query IsFinished r (runnerState s r = RunnerFinished)])"

text \<open>Every Runner registered in ThinkerMap is Canceled or Finished.\<close>

definition allTerminal :: "manager \<Rightarrow> bool" where
  "allTerminal s = list_all (\<lambda>p. isTerminal (runnerState s (snd p))) (thinkerMap s)"

text \<open>The events of one drain of a set \<open>q\<close> of pending Runners: the push of each, then the
  broadcast of were-pushed.\<close>

definition drainEvents :: "runner list \<Rightarrow> event list" where
  "drainEvents q = map (Call DoThreadPushIfNecessary) q @ [WakeAll ThreadsWerePushed]"

text \<open>The set the controller finds after a wait during which the workers of \<open>batch\<close>
  arrived, and the events from that wait to the end of the next drain.\<close>

definition arrived :: "runner list \<Rightarrow> runner list" where
  "arrived batch = foldl (\<lambda>q r. qset_insert r q) [] batch"

definition waitAndDrain :: "runner list \<Rightarrow> event list" where
  "waitAndDrain batch =
     [Wait ThreadsNeedPushing, Locked PushThreadMutex] @ drainEvents (arrived batch)"

text \<open>The batches drained while waiting for Runner \<open>r\<close>: all those before the first that
  holds \<open>r\<close>, and that one.\<close>

definition drainedBatches :: "runner \<Rightarrow> runner list list \<Rightarrow> runner list list" where
  "drainedBatches r arrivals =
     takeWhile (\<lambda>b. r \<notin> set b) arrivals @ take 1 (dropWhile (\<lambda>b. r \<notin> set b) arrivals)"

text \<open>Runner \<open>r\<close> is in some batch.\<close>

definition arrives :: "runner \<Rightarrow> runner list list \<Rightarrow> bool" where
  "arrives r arrivals = list_ex (\<lambda>b. r \<in> set b) arrivals"

section \<open>Proofs\<close>

subsection \<open>Evaluation\<close>

lemmas eval_defs = freshManager_def oneRunner_def twoRunners_def
  addToThinkerMap_def removeFromThinkerMap_def maybeGetRunnerForThinker_def
  qmap_contains_def qmap_remove_def qmap_value_def log_def Let_def

subsection \<open>ThinkerMap and the thinker's state\<close>

lemma qmap_contains_keys: "qmap_contains t m = (t \<in> fst ` set m)"
  by (simp add: qmap_contains_def map_of_eq_None_iff)

lemma keysOwned_iff:
  "keysOwned s = (\<forall>t. qmap_contains t (thinkerMap s) \<longrightarrow> thinkerState s t = ThinkerOwnedByRunner)"
  by (auto simp: keysOwned_def qmap_contains_keys list_all_iff)

lemma qmap_contains_insert: "qmap_contains t (qmap_insert k v m) = (t = k \<or> qmap_contains t m)"
  by (induction m) (auto simp: qmap_contains_def split: if_splits)

lemma qmap_contains_remove: "qmap_contains t (snd (qmap_remove k m)) = (t \<noteq> k \<and> qmap_contains t m)"
  by (induction m) (auto simp: qmap_contains_def qmap_remove_def)

lemma qmap_remove_count: "fst (qmap_remove k m) = 1 \<Longrightarrow> qmap_contains k m"
  by (induction m) (auto simp: qmap_contains_def qmap_remove_def split: if_splits)

lemma add_returns:
  "(fst (addToThinkerMap r s) = Returns ()) = (\<not> qmap_contains (runnerThinker s r) (thinkerMap s))"
  by (simp add: addToThinkerMap_def Let_def log_def)

lemma add_state:
  "fst (addToThinkerMap r s) = Returns () \<Longrightarrow>
   snd (addToThinkerMap r s) = s\<lparr>thinkerMap := qmap_insert (runnerThinker s r) r (thinkerMap s),
      events := events s @ [Locked MapsMutex, Unlocked MapsMutex]\<rparr>"
  by (simp add: addToThinkerMap_def Let_def log_def split: if_splits)

lemma remove_state:
  "fst (removeFromThinkerMap r c s) = Returns () \<Longrightarrow>
   snd (removeFromThinkerMap r c s) = s\<lparr>thinkerMap := snd (qmap_remove (runnerThinker s r) (thinkerMap s)),
      thinkerState := (thinkerState s)(runnerThinker s r := if c then ThinkerCanceled else ThinkerFinished),
      events := events s @ [Locked MapsMutex, Unlocked MapsMutex]\<rparr>"
  by (simp add: removeFromThinkerMap_def Let_def log_def split: if_splits)

lemma remove_returns:
  "(fst (removeFromThinkerMap r c s) = Returns ()) =
     (fst (qmap_remove (runnerThinker s r) (thinkerMap s)) = 1 \<and> thinkerState s (runnerThinker s r) = ThinkerOwnedByRunner)"
  by (simp add: removeFromThinkerMap_def Let_def log_def split: if_splits)

lemma add_keysOwned:
  "fst (addToThinkerMap r s) = Returns () \<Longrightarrow> thinkerState s (runnerThinker s r) = ThinkerOwnedByRunner
    \<Longrightarrow> keysOwned s \<Longrightarrow> keysOwned (snd (addToThinkerMap r s))"
  by (simp add: add_state keysOwned_iff qmap_contains_insert)

lemma remove_keysOwned:
  "fst (removeFromThinkerMap r c s) = Returns () \<Longrightarrow> keysOwned s \<Longrightarrow> keysOwned (snd (removeFromThinkerMap r c s))"
  by (simp add: remove_state keysOwned_iff qmap_contains_remove)

lemma add_ownedIsKey:
  "fst (addToThinkerMap r s) = Returns () \<Longrightarrow> ownedIsKey s t \<Longrightarrow> ownedIsKey (snd (addToThinkerMap r s)) t"
  by (auto simp add: add_state ownedIsKey_def qmap_contains_insert)

lemma remove_ownedIsKey:
  "fst (removeFromThinkerMap r c s) = Returns () \<Longrightarrow> ownedIsKey s t \<Longrightarrow> ownedIsKey (snd (removeFromThinkerMap r c s)) t"
  by (auto simp add: remove_state ownedIsKey_def qmap_contains_remove)

lemma runOps_Cons_returns:
  "(fst (runOps (x # xs) s) = Returns ()) =
     (fst (applyOp x s) = Returns () \<and> fst (runOps xs (snd (applyOp x s))) = Returns ())"
  by (cases "applyOp x s") (auto split: outcome.splits)

lemma runOps_Cons_state:
  "fst (applyOp x s) = Returns () \<Longrightarrow> runOps (x # xs) s = runOps xs (snd (applyOp x s))"
  by (cases "applyOp x s") (auto split: outcome.splits)

lemma runOps_keysOwned:
  "fst (runOps xs s) = Returns () \<Longrightarrow> addsOwned xs s \<Longrightarrow> keysOwned s \<Longrightarrow> keysOwned (snd (runOps xs s))"
proof (induction xs arbitrary: s)
  case Nil
  then show ?case by simp
next
  case (Cons x xs)
  from Cons.prems(1) have ok: "fst (applyOp x s) = Returns ()"
    and rest: "fst (runOps xs (snd (applyOp x s))) = Returns ()"
    by (simp_all del: runOps.simps add: runOps_Cons_returns)
  have "keysOwned (snd (applyOp x s)) \<and> addsOwned xs (snd (applyOp x s))"
    using ok Cons.prems(2,3) by (cases x) (simp_all add: add_keysOwned remove_keysOwned)
  then show ?case
    using Cons.IH [OF rest] ok by (simp del: runOps.simps add: runOps_Cons_state)
qed

lemma runOps_ownedIsKey:
  "fst (runOps xs s) = Returns () \<Longrightarrow> ownedIsKey s t \<Longrightarrow> ownedIsKey (snd (runOps xs s)) t"
proof (induction xs arbitrary: s)
  case Nil
  then show ?case by simp
next
  case (Cons x xs)
  from Cons.prems(1) have ok: "fst (applyOp x s) = Returns ()"
    and rest: "fst (runOps xs (snd (applyOp x s))) = Returns ()"
    by (simp_all del: runOps.simps add: runOps_Cons_returns)
  have "ownedIsKey (snd (applyOp x s)) t"
    using ok Cons.prems(2) by (cases x) (simp_all add: add_ownedIsKey remove_ownedIsKey)
  then show ?case
    using Cons.IH [OF rest] ok by (simp del: runOps.simps add: runOps_Cons_state)
qed

lemma runOps_take_returns:
  "fst (runOps xs s) = Returns () \<Longrightarrow> fst (runOps (take n xs) s) = Returns ()"
proof (induction xs arbitrary: s n)
  case Nil
  then show ?case by simp
next
  case (Cons x xs)
  show ?case
  proof (cases n)
    case 0
    then show ?thesis by simp
  next
    case (Suc k)
    from Cons.prems have ok: "fst (applyOp x s) = Returns ()"
      and rest: "fst (runOps xs (snd (applyOp x s))) = Returns ()"
      by (simp_all del: runOps.simps add: runOps_Cons_returns)
    show ?thesis
      using Cons.IH [OF rest, of k] ok Suc by (simp del: runOps.simps add: runOps_Cons_returns)
  qed
qed

lemma addsOwned_take:
  "addsOwned xs s \<Longrightarrow> addsOwned (take n xs) s"
proof (induction xs s arbitrary: n rule: addsOwned.induct)
  case (1 s)
  then show ?case by simp
next
  case (2 r xs s)
  then show ?case by (cases n) simp_all
next
  case (3 r c xs s)
  then show ?case by (cases n) simp_all
qed

lemma add_breaks_coherence:
  "fst (addToThinkerMap r s) = Returns () \<Longrightarrow>
     \<not> (coherent s (runnerThinker s r) \<and> coherent (snd (addToThinkerMap r s)) (runnerThinker s r))"
  by (auto simp: coherent_def add_state add_returns qmap_contains_insert)

text \<open>
  Claim C1, as amended. Take any sequence of \<^verbatim>\<open>addToThinkerMap\<close> and \<^verbatim>\<open>removeFromThinkerMap\<close>
  calls that runs without a failed assertion, from a state in which every key of
  ThinkerMap is a thinker in state Owned-By-Runner, and in which each \<^verbatim>\<open>addToThinkerMap\<close> is
  given a Runner whose thinker is Owned-By-Runner at that moment. Then at every
  observation between two operations every key of ThinkerMap is in state Owned-By-Runner.
  A \<^verbatim>\<open>removeFromThinkerMap\<close> that completes found the thinker as a key in state
  Owned-By-Runner, and takes the key out and writes Finished or Canceled between one lock
  and unlock of the maps mutex. The converse half of the coherence is not kept:
  \<^verbatim>\<open>addToThinkerMap\<close> leaves the thinker's state alone, so for no call of it that completes
  does "key if and only if Owned-By-Runner" hold both before and after.
\<close>

theorem thinkerMap_keys_are_owned:
  assumes "fst (runOps xs s) = Returns ()" and "addsOwned xs s" and "keysOwned s"
  shows "keysOwned (snd (runOps (take n xs) s)) \<and>
         (fst (removeFromThinkerMap r c s') = Returns () \<longrightarrow>
           qmap_contains (runnerThinker s' r) (thinkerMap s') \<and>
           thinkerState s' (runnerThinker s' r) = ThinkerOwnedByRunner \<and>
           snd (removeFromThinkerMap r c s') =
             s'\<lparr>thinkerMap := snd (qmap_remove (runnerThinker s' r) (thinkerMap s')),
                thinkerState := (thinkerState s')
                  (runnerThinker s' r := if c then ThinkerCanceled else ThinkerFinished),
                events := events s' @ [Locked MapsMutex, Unlocked MapsMutex]\<rparr> \<and>
           \<not> qmap_contains (runnerThinker s' r) (thinkerMap (snd (removeFromThinkerMap r c s')))) \<and>
         (fst (addToThinkerMap r s') = Returns () \<longrightarrow>
           \<not> (coherent s' (runnerThinker s' r) \<and>
               coherent (snd (addToThinkerMap r s')) (runnerThinker s' r)))"
proof (intro conjI)
  show "keysOwned (snd (runOps (take n xs) s))"
    using assms by (intro runOps_keysOwned runOps_take_returns addsOwned_take)
  show "fst (removeFromThinkerMap r c s') = Returns () \<longrightarrow>
           qmap_contains (runnerThinker s' r) (thinkerMap s') \<and>
           thinkerState s' (runnerThinker s' r) = ThinkerOwnedByRunner \<and>
           snd (removeFromThinkerMap r c s') =
             s'\<lparr>thinkerMap := snd (qmap_remove (runnerThinker s' r) (thinkerMap s')),
                thinkerState := (thinkerState s')
                  (runnerThinker s' r := if c then ThinkerCanceled else ThinkerFinished),
                events := events s' @ [Locked MapsMutex, Unlocked MapsMutex]\<rparr> \<and>
           \<not> qmap_contains (runnerThinker s' r) (thinkerMap (snd (removeFromThinkerMap r c s')))"
    by (auto simp: remove_returns remove_state qmap_remove_count qmap_contains_remove)
  show "fst (addToThinkerMap r s') = Returns () \<longrightarrow>
           \<not> (coherent s' (runnerThinker s' r) \<and>
               coherent (snd (addToThinkerMap r s')) (runnerThinker s' r))"
    using add_breaks_coherence by blast
qed

text \<open>The theorem at work: Runner 7 is registered and removed again in a fresh Manager, and
  Runner 7 of thinker 3 is removed as canceled.\<close>

theorem thinkerMap_keys_are_owned_witness:
  "fst (runOps [AddToThinkerMap 7, RemoveFromThinkerMap 7 True] freshManager) = Returns () \<and>
   addsOwned [AddToThinkerMap 7, RemoveFromThinkerMap 7 True] freshManager \<and>
   keysOwned freshManager \<and>
   thinkerMap (snd (runOps (take 1 [AddToThinkerMap 7, RemoveFromThinkerMap 7 True]) freshManager)) = [(0, 7)] \<and>
   keysOwned (snd (runOps (take 1 [AddToThinkerMap 7, RemoveFromThinkerMap 7 True]) freshManager)) \<and>
   fst (removeFromThinkerMap 7 True (oneRunner RunnerCanceled)) = Returns () \<and>
   thinkerState (snd (removeFromThinkerMap 7 True (oneRunner RunnerCanceled))) 3 = ThinkerCanceled \<and>
   thinkerMap (snd (removeFromThinkerMap 7 True (oneRunner RunnerCanceled))) = [] \<and>
   fst (addToThinkerMap 8 (oneRunner RunnerCanceled)) = Returns () \<and>
   \<not> coherent (oneRunner RunnerCanceled) 4"
proof -
  have h1: "fst (runOps [AddToThinkerMap 7, RemoveFromThinkerMap 7 True] freshManager) = Returns ()"
    by (simp add: eval_defs)
  have h2: "addsOwned [AddToThinkerMap 7, RemoveFromThinkerMap 7 True] freshManager"
    by (simp add: eval_defs)
  have h3: "keysOwned freshManager"
    by (simp add: keysOwned_def eval_defs)
  have h4: "fst (removeFromThinkerMap 7 True (oneRunner RunnerCanceled)) = Returns ()"
    by (simp add: eval_defs)
  have h5: "fst (addToThinkerMap 8 (oneRunner RunnerCanceled)) = Returns ()"
    by (simp add: eval_defs)
  have h6: "thinkerMap (snd (runOps (take 1 [AddToThinkerMap 7, RemoveFromThinkerMap 7 True]) freshManager)) = [(0, 7)]"
    by (simp add: eval_defs)
  have h7: "\<not> coherent (oneRunner RunnerCanceled) 4"
    by (simp add: coherent_def eval_defs)
  from thinkerMap_keys_are_owned [OF h1 h2 h3, of 1 7 True "oneRunner RunnerCanceled"]
  show ?thesis
    using h1 h2 h3 h4 h5 h6 h7 by (simp add: eval_defs)
qed

text \<open>Claim C1 as stated fails. Where all thinkers are Finished and none is registered, the
  coherence holds for thinker 0 and \<^verbatim>\<open>addToThinkerMap\<close> breaks it; and in the fresh Manager,
  from which the life cycle add, remove of thinker 0 runs through, it does not hold to
  begin with.\<close>

theorem thinkerMap_coherence_counterexample:
  "coherent finishedManager 0 \<and>
   fst (runOps [AddToThinkerMap 7] finishedManager) = Returns () \<and>
   \<not> coherent (snd (runOps [AddToThinkerMap 7] finishedManager)) 0 \<and>
   fst (runOps [AddToThinkerMap 7, RemoveFromThinkerMap 7 False] freshManager) = Returns () \<and>
   \<not> coherent freshManager 0"
  by (simp add: coherent_def finishedManager_def eval_defs)

subsection \<open>Lookup by thinker\<close>

text \<open>
  Claim C7, as amended. \<^verbatim>\<open>maybeGetRunnerForThinker\<close> never blocks; when it returns null the
  thinker is not a key of ThinkerMap and its state is Canceled or Finished; when it
  returns a Runner, that is the thinker's entry of ThinkerMap. The assertion of the null
  branch fires exactly when the thinker is not a key and its state is Owned-By-Runner.
  It therefore does not fire after any sequence of \<^verbatim>\<open>addToThinkerMap\<close> and
  \<^verbatim>\<open>removeFromThinkerMap\<close> calls that started where the thinker was a key or was not
  Owned-By-Runner; it does fire for a thinker that is Owned-By-Runner and not yet a key.
\<close>

theorem maybeGetRunnerForThinker_null_is_terminal:
  "(fst (maybeGetRunnerForThinker t s) = Returns None \<longrightarrow>
      \<not> qmap_contains t (thinkerMap s) \<and>
      (thinkerState s t = ThinkerCanceled \<or> thinkerState s t = ThinkerFinished)) \<and>
   (fst (maybeGetRunnerForThinker t s) = Returns (Some r) \<longrightarrow> (t, r) \<in> set (thinkerMap s)) \<and>
   ((fst (maybeGetRunnerForThinker t s) = Asserts 166) =
      (\<not> qmap_contains t (thinkerMap s) \<and> thinkerState s t = ThinkerOwnedByRunner)) \<and>
   fst (maybeGetRunnerForThinker t s) \<noteq> Blocks \<and>
   (ownedIsKey s t \<and> fst (runOps xs s) = Returns () \<longrightarrow>
      fst (maybeGetRunnerForThinker t (snd (runOps xs s))) \<noteq> Asserts 166)"
proof (intro conjI)
  have fires: "(fst (maybeGetRunnerForThinker t s') = Asserts 166) =
      (\<not> qmap_contains t (thinkerMap s') \<and> thinkerState s' t = ThinkerOwnedByRunner)" for s'
    by (cases "thinkerState s' t")
       (simp_all add: maybeGetRunnerForThinker_def Let_def log_def qmap_value_def qmap_contains_def)
  show "(fst (maybeGetRunnerForThinker t s) = Asserts 166) =
      (\<not> qmap_contains t (thinkerMap s) \<and> thinkerState s t = ThinkerOwnedByRunner)"
    by (rule fires)
  show "fst (maybeGetRunnerForThinker t s) = Returns None \<longrightarrow>
      \<not> qmap_contains t (thinkerMap s) \<and>
      (thinkerState s t = ThinkerCanceled \<or> thinkerState s t = ThinkerFinished)"
    by (auto simp: maybeGetRunnerForThinker_def Let_def log_def qmap_value_def qmap_contains_def
        split: if_splits)
  show "fst (maybeGetRunnerForThinker t s) = Returns (Some r) \<longrightarrow> (t, r) \<in> set (thinkerMap s)"
    by (auto simp: maybeGetRunnerForThinker_def Let_def log_def qmap_value_def
        split: if_splits dest: map_of_SomeD)
  show "fst (maybeGetRunnerForThinker t s) \<noteq> Blocks"
    by (simp add: maybeGetRunnerForThinker_def Let_def)
  show "ownedIsKey s t \<and> fst (runOps xs s) = Returns () \<longrightarrow>
      fst (maybeGetRunnerForThinker t (snd (runOps xs s))) \<noteq> Asserts 166"
  proof
    assume a: "ownedIsKey s t \<and> fst (runOps xs s) = Returns ()"
    then have "ownedIsKey (snd (runOps xs s)) t"
      by (simp add: runOps_ownedIsKey)
    then show "fst (maybeGetRunnerForThinker t (snd (runOps xs s))) \<noteq> Asserts 166"
      unfolding fires by (auto simp: ownedIsKey_def)
  qed
qed

text \<open>The theorem at work: thinker 3 is looked up while Runner 7 is registered, and again
  after the Runner was removed as finished.\<close>

theorem maybeGetRunnerForThinker_null_is_terminal_witness:
  "fst (maybeGetRunnerForThinker 3 (oneRunner RunnerThinking)) = Returns (Some 7) \<and>
   (3, 7) \<in> set (thinkerMap (oneRunner RunnerThinking)) \<and>
   ownedIsKey (oneRunner RunnerThinking) 3 \<and>
   fst (runOps [RemoveFromThinkerMap 7 False] (oneRunner RunnerThinking)) = Returns () \<and>
   fst (maybeGetRunnerForThinker 3 (snd (runOps [RemoveFromThinkerMap 7 False] (oneRunner RunnerThinking))))
     = Returns None \<and>
   thinkerState (snd (runOps [RemoveFromThinkerMap 7 False] (oneRunner RunnerThinking))) 3 = ThinkerFinished"
proof -
  have h1: "fst (maybeGetRunnerForThinker 3 (oneRunner RunnerThinking)) = Returns (Some 7)"
    by (simp add: eval_defs)
  have h2: "ownedIsKey (oneRunner RunnerThinking) 3"
    by (simp add: ownedIsKey_def eval_defs)
  have h3: "fst (runOps [RemoveFromThinkerMap 7 False] (oneRunner RunnerThinking)) = Returns ()"
    by (simp add: eval_defs)
  have h4: "fst (maybeGetRunnerForThinker 3 (snd (runOps [RemoveFromThinkerMap 7 False] (oneRunner RunnerThinking))))
     = Returns None"
    by (simp add: eval_defs)
  from maybeGetRunnerForThinker_null_is_terminal
         [of 3 "oneRunner RunnerThinking" 7 "[RemoveFromThinkerMap 7 False]"]
       maybeGetRunnerForThinker_null_is_terminal
         [of 3 "snd (runOps [RemoveFromThinkerMap 7 False] (oneRunner RunnerThinking))" 7 "[]"]
  show ?thesis
    using h1 h2 h3 h4 by (simp add: eval_defs)
qed

text \<open>Claim C7 as stated fails: in the fresh Manager, from which thinker 0 can be registered
  and removed without a failed assertion, the lookup of thinker 0 dies in the assertion
  of the null branch.\<close>

theorem maybeGetRunnerForThinker_assertion_counterexample:
  "fst (runOps [AddToThinkerMap 7, RemoveFromThinkerMap 7 False] freshManager) = Returns () \<and>
   fst (maybeGetRunnerForThinker 0 freshManager) = Asserts 166"
  by (simp add: eval_defs)

subsection \<open>Thread checks\<close>

text \<open>
  Claim C10. \<^verbatim>\<open>ThinkerRunner::hopefullyCurrentThreadIsPooled\<close> returns true for every
  Runner, every calling thread and every codeplace, and changes nothing: it cannot fail.
  The Manager's check of the controller thread can: it dies in its assertion exactly
  when the calling thread is not the Manager's.
\<close>

theorem hopefullyCurrentThreadIsPooled_always_true:
  "hopefullyCurrentThreadIsPooled runner cur cp s = (Returns True, s) \<and>
   (fst (hopefullyCurrentThreadIsManager cur cp s) = Asserts cp) = (cur \<noteq> managerThread s)"
  by (simp add: hopefullyCurrentThreadIsPooled_def hopefullyCurrentThreadIsManager_def
      hopefullyThreadIsManager_def hopefully_def)

subsection \<open>Sequencing\<close>

lemma andThen_Returns: "fst (m s) = Returns a \<Longrightarrow> andThen m f s = f a (snd (m s))"
  by (cases "m s") (simp add: andThen_def)

lemma managerCheck:
  "hopefullyCurrentThreadIsManager cur cp s =
     (if cur = managerThread s then (Returns True, s) else (Asserts cp, s))"
  by (simp add: hopefullyCurrentThreadIsManager_def hopefullyThreadIsManager_def hopefully_def)

lemma andThen_managerCheck:
  "andThen (hopefullyCurrentThreadIsManager cur cp) f s =
     (if cur = managerThread s then f True s else (Asserts cp, s))"
  by (simp add: andThen_def managerCheck)

lemmas run_defs = andThen_def managerCheck hopefully_def callRunner_def queryRunner_def
  specRunner_def cooperativeWorker_def workerExit_def

subsection \<open>createRunnerForThinker\<close>

lemma map_of_qmap_insert: "map_of (qmap_insert k v m) k = Some v"
  by (induction m) auto

lemma createRunner_returns:
  "(fst (createRunnerForThinker cur holder cp runner s) = Returns ()) =
     (cur = managerThread s \<and> \<not> qmap_contains holder (thinkerMap s))"
  by (cases "cur = managerThread s")
     (simp_all add: createRunnerForThinker_def managerCheck newThinkerRunner_def
        newThinkerRunnerProxy_def poolStart_def andThen_def addToThinkerMap_def Let_def log_def)

lemma createRunner_state:
  "fst (createRunnerForThinker cur holder cp runner s) = Returns () \<Longrightarrow>
   snd (createRunnerForThinker cur holder cp runner s) =
     s\<lparr>thinkerMap := qmap_insert holder runner (thinkerMap s),
       runnerThinker := (runnerThinker s)(runner := holder),
       runnerState := (runnerState s)(runner := RunnerInitializing),
       poolQueue := poolQueue s @ [runner],
       events := events s @ [Locked MapsMutex, Unlocked MapsMutex, PoolStart runner]\<rparr>"
  by (cases "cur = managerThread s")
     (simp_all add: createRunnerForThinker_def managerCheck newThinkerRunner_def
        newThinkerRunnerProxy_def poolStart_def andThen_def addToThinkerMap_def Let_def log_def
        split: if_splits)

text \<open>
  Claim C4. \<^verbatim>\<open>createRunnerForThinker\<close> returns exactly when it is called on the Manager's
  thread for a thinker that is not yet a key of ThinkerMap. On return the thinker is a
  key of ThinkerMap and maps to the new Runner, which is in state Initializing and refers
  to the thinker; the insertion took place under the maps mutex, and after it the Runner
  was handed to the pool, where it is queued.
\<close>

theorem createRunnerForThinker_registers:
  "((fst (createRunnerForThinker cur holder cp runner s) = Returns ()) =
      (cur = managerThread s \<and> \<not> qmap_contains holder (thinkerMap s))) \<and>
   (fst (createRunnerForThinker cur holder cp runner s) = Returns () \<longrightarrow>
      qmap_contains holder (thinkerMap (snd (createRunnerForThinker cur holder cp runner s))) \<and>
      qmap_value (thinkerMap (snd (createRunnerForThinker cur holder cp runner s))) holder = Some runner \<and>
      runnerThinker (snd (createRunnerForThinker cur holder cp runner s)) runner = holder \<and>
      runnerState (snd (createRunnerForThinker cur holder cp runner s)) runner = RunnerInitializing \<and>
      poolQueue (snd (createRunnerForThinker cur holder cp runner s)) = poolQueue s @ [runner] \<and>
      events (snd (createRunnerForThinker cur holder cp runner s)) =
        events s @ [Locked MapsMutex, Unlocked MapsMutex, PoolStart runner])"
  by (simp add: createRunner_returns createRunner_state qmap_value_def qmap_contains_def
      map_of_qmap_insert)

text \<open>The theorem at work: Runner 7 is created for thinker 3 in a fresh Manager, from the
  controller thread and from another thread.\<close>

theorem createRunnerForThinker_registers_witness:
  "fst (createRunnerForThinker 2 3 0 7 freshManager) = Returns () \<and>
   thinkerMap (snd (createRunnerForThinker 2 3 0 7 freshManager)) = [(3, 7)] \<and>
   qmap_contains 3 (thinkerMap (snd (createRunnerForThinker 2 3 0 7 freshManager))) \<and>
   poolQueue (snd (createRunnerForThinker 2 3 0 7 freshManager)) = [7] \<and>
   events (snd (createRunnerForThinker 2 3 0 7 freshManager)) =
     [Locked MapsMutex, Unlocked MapsMutex, PoolStart 7] \<and>
   fst (createRunnerForThinker 5 3 0 7 freshManager) = Asserts 0"
proof -
  have h1: "fst (createRunnerForThinker 2 3 0 7 freshManager) = Returns ()"
    by (simp add: createRunner_returns freshManager_def qmap_contains_def)
  have h2: "thinkerMap (snd (createRunnerForThinker 2 3 0 7 freshManager)) = [(3, 7)]"
    by (simp only: createRunner_state [OF h1]) (simp add: freshManager_def)
  have h3: "fst (createRunnerForThinker 5 3 0 7 freshManager) = Asserts 0"
    by (simp add: createRunnerForThinker_def andThen_def managerCheck freshManager_def)
  from createRunnerForThinker_registers [of 2 3 0 7 freshManager]
  show ?thesis
    using h1 h2 h3 by (simp add: freshManager_def)
qed

subsection \<open>ensureThinkersPaused\<close>

lemma callRunner_events:
  "events (snd (callRunner impl c r s)) = events s @ [Call c r]"
  by (simp add: callRunner_def Let_def log_def split: outcome.splits)

lemma forEachRunner_Cons_Returns:
  "fst (f r s) = Returns () \<Longrightarrow> forEachRunner f (r # rs) s = forEachRunner f rs (snd (f r s))"
  by (cases "f r s") simp

lemma forEachRunner_Cons_stops:
  "fst (f r s) \<noteq> Returns () \<Longrightarrow> forEachRunner f (r # rs) s = f r s"
  by (cases "f r s") (auto split: outcome.splits)

lemma forEachCall_events:
  "\<exists>n\<le>length rs.
     events (snd (forEachRunner (callRunner impl c) rs s)) = events s @ map (Call c) (take n rs) \<and>
     (fst (forEachRunner (callRunner impl c) rs s) = Returns () \<longrightarrow> n = length rs)"
proof (induction rs arbitrary: s)
  case Nil
  then show ?case by simp
next
  case (Cons r rs)
  show ?case
  proof (cases "fst (callRunner impl c r s) = Returns ()")
    case True
    from Cons.IH [of "snd (callRunner impl c r s)"] obtain n where
      n: "n \<le> length rs"
        "events (snd (forEachRunner (callRunner impl c) rs (snd (callRunner impl c r s)))) =
           events (snd (callRunner impl c r s)) @ map (Call c) (take n rs)"
        "fst (forEachRunner (callRunner impl c) rs (snd (callRunner impl c r s))) = Returns ()
           \<longrightarrow> n = length rs"
      by blast
    have "forEachRunner (callRunner impl c) (r # rs) s =
            forEachRunner (callRunner impl c) rs (snd (callRunner impl c r s))"
      by (rule forEachRunner_Cons_Returns) (rule True)
    with n show ?thesis
      by (intro exI [of _ "Suc n"]) (simp add: callRunner_events)
  next
    case False
    then have "forEachRunner (callRunner impl c) (r # rs) s = callRunner impl c r s"
      by (rule forEachRunner_Cons_stops)
    with False show ?thesis
      by (intro exI [of _ "Suc 0"]) (simp add: callRunner_events)
  qed
qed

lemma ensureThinkersPaused_unfold:
  "cur = managerThread s \<Longrightarrow>
   ensureThinkersPaused impl cur cp s =
     andThen (forEachRunner (callRunner impl (RequestPauseCore True)) (map snd (thinkerMap s)))
       (\<lambda>u. forEachRunner (callRunner impl (WaitForPauseCore True)) (map snd (thinkerMap s)))
       (s\<lparr>events := events s @ [Locked MapsMutex, Unlocked MapsMutex]\<rparr>)"
  by (simp add: ensureThinkersPaused_def andThen_managerCheck Let_def log_def)

lemma ensureThinkersPaused_wrong_thread:
  "cur \<noteq> managerThread s \<Longrightarrow> ensureThinkersPaused impl cur cp s = (Asserts 111, s)"
  by (simp add: ensureThinkersPaused_def andThen_managerCheck)

lemma ensureThinkersPaused_events:
  assumes "cur = managerThread s"
  shows "\<exists>n m. n \<le> length (thinkerMap s) \<and> m \<le> length (thinkerMap s) \<and>
           (m = 0 \<or> n = length (thinkerMap s)) \<and>
           events (snd (ensureThinkersPaused impl cur cp s)) =
             events s @ [Locked MapsMutex, Unlocked MapsMutex]
               @ map (Call (RequestPauseCore True)) (take n (map snd (thinkerMap s)))
               @ map (Call (WaitForPauseCore True)) (take m (map snd (thinkerMap s))) \<and>
           (fst (ensureThinkersPaused impl cur cp s) = Returns () \<longrightarrow>
              n = length (thinkerMap s) \<and> m = length (thinkerMap s))"
proof -
  let ?rs = "map snd (thinkerMap s)"
  let ?s0 = "s\<lparr>events := events s @ [Locked MapsMutex, Unlocked MapsMutex]\<rparr>"
  let ?first = "forEachRunner (callRunner impl (RequestPauseCore True)) ?rs ?s0"
  from forEachCall_events [of ?rs impl "RequestPauseCore True" ?s0] obtain n where
    n: "n \<le> length ?rs"
       "events (snd ?first) = events ?s0 @ map (Call (RequestPauseCore True)) (take n ?rs)"
       "fst ?first = Returns () \<longrightarrow> n = length ?rs"
    by blast
  show ?thesis
  proof (cases "fst ?first = Returns ()")
    case True
    let ?second = "forEachRunner (callRunner impl (WaitForPauseCore True)) ?rs (snd ?first)"
    have run: "ensureThinkersPaused impl cur cp s = ?second"
      unfolding ensureThinkersPaused_unfold [OF assms] by (rule andThen_Returns) (rule True)
    from forEachCall_events [of ?rs impl "WaitForPauseCore True" "snd ?first"] obtain m where
      m: "m \<le> length ?rs"
         "events (snd ?second) = events (snd ?first) @ map (Call (WaitForPauseCore True)) (take m ?rs)"
         "fst ?second = Returns () \<longrightarrow> m = length ?rs"
      by blast
    from n m True show ?thesis
      by (intro exI [of _ n] exI [of _ m]) (simp add: run)
  next
    case False
    then have run: "ensureThinkersPaused impl cur cp s = ?first"
      by (simp only: ensureThinkersPaused_unfold [OF assms])
         (cases ?first, auto simp: andThen_def split: outcome.splits)
    from n False show ?thesis
      by (intro exI [of _ n] exI [of _ 0]) (simp add: run)
  qed
qed



text \<open>
  Claim C5. Let \<open>rs\<close> be the Runners of ThinkerMap when \<^verbatim>\<open>ensureThinkersPaused\<close> is called on
  the controller thread. Whatever the Runners do, and however the call ends, its trace is:
  the maps mutex locked and unlocked (the copy is taken in between), then pause requests
  accepting a canceled Runner to the first \<open>n\<close> Runners of \<open>rs\<close>, then waits for the pause
  on the first \<open>m\<close> Runners of \<open>rs\<close>, where a wait occurs only if all requests were issued.
  When the call returns, all requests and then all waits were made, in the order of the
  copy. Called from another thread it dies in its first assertion.
\<close>

theorem ensureThinkersPaused_two_phase:
  "(fst (ensureThinkersPaused impl cur cp s) = Returns () \<longrightarrow>
      cur = managerThread s \<and>
      events (snd (ensureThinkersPaused impl cur cp s)) =
        events s @ [Locked MapsMutex, Unlocked MapsMutex]
          @ map (Call (RequestPauseCore True)) (map snd (thinkerMap s))
          @ map (Call (WaitForPauseCore True)) (map snd (thinkerMap s))) \<and>
   (cur = managerThread s \<longrightarrow>
      (\<exists>n m. n \<le> length (thinkerMap s) \<and> m \<le> length (thinkerMap s) \<and>
         (m = 0 \<or> n = length (thinkerMap s)) \<and>
         events (snd (ensureThinkersPaused impl cur cp s)) =
           events s @ [Locked MapsMutex, Unlocked MapsMutex]
             @ map (Call (RequestPauseCore True)) (take n (map snd (thinkerMap s)))
             @ map (Call (WaitForPauseCore True)) (take m (map snd (thinkerMap s))))) \<and>
   (cur \<noteq> managerThread s \<longrightarrow> ensureThinkersPaused impl cur cp s = (Asserts 111, s))"
proof (intro conjI impI)
  assume ret: "fst (ensureThinkersPaused impl cur cp s) = Returns ()"
  show cur: "cur = managerThread s"
    using ret by (cases "cur = managerThread s") (simp_all add: ensureThinkersPaused_wrong_thread)
  from ensureThinkersPaused_events [OF cur, of impl cp] ret
  show "events (snd (ensureThinkersPaused impl cur cp s)) =
        events s @ [Locked MapsMutex, Unlocked MapsMutex]
          @ map (Call (RequestPauseCore True)) (map snd (thinkerMap s))
          @ map (Call (WaitForPauseCore True)) (map snd (thinkerMap s))"
    by auto
next
  assume cur: "cur = managerThread s"
  from ensureThinkersPaused_events [OF cur, of impl cp]
  show "\<exists>n m. n \<le> length (thinkerMap s) \<and> m \<le> length (thinkerMap s) \<and>
         (m = 0 \<or> n = length (thinkerMap s)) \<and>
         events (snd (ensureThinkersPaused impl cur cp s)) =
           events s @ [Locked MapsMutex, Unlocked MapsMutex]
             @ map (Call (RequestPauseCore True)) (take n (map snd (thinkerMap s)))
             @ map (Call (WaitForPauseCore True)) (take m (map snd (thinkerMap s)))"
    by blast
next
  assume "cur \<noteq> managerThread s"
  then show "ensureThinkersPaused impl cur cp s = (Asserts 111, s)"
    by (rule ensureThinkersPaused_wrong_thread)
qed

text \<open>The theorem of claim C5 at work: a thinking and a canceled Runner with polling bodies;
  two thinking Runners whose bodies never poll, where all requests are out before the
  first wait blocks; and a call from the wrong thread.\<close>

theorem ensureThinkersPaused_two_phase_witness:
  "fst (ensureThinkersPaused (specRunner cooperativeWorker) 2 0 (twoRunners RunnerThinking RunnerCanceled))
     = Returns () \<and>
   events (snd (ensureThinkersPaused (specRunner cooperativeWorker) 2 0
                  (twoRunners RunnerThinking RunnerCanceled))) =
     [Locked MapsMutex, Unlocked MapsMutex,
      Call (RequestPauseCore True) 7, Call (RequestPauseCore True) 9,
      Call (WaitForPauseCore True) 7, Call (WaitForPauseCore True) 9] \<and>
   runnerState (snd (ensureThinkersPaused (specRunner cooperativeWorker) 2 0
                  (twoRunners RunnerThinking RunnerCanceled))) 7 = RunnerPaused \<and>
   fst (ensureThinkersPaused (specRunner idleWorker) 2 0 (twoRunners RunnerThinking RunnerThinking))
     = Blocks \<and>
   events (snd (ensureThinkersPaused (specRunner idleWorker) 2 0
                  (twoRunners RunnerThinking RunnerThinking))) =
     [Locked MapsMutex, Unlocked MapsMutex,
      Call (RequestPauseCore True) 7, Call (RequestPauseCore True) 9,
      Call (WaitForPauseCore True) 7] \<and>
   ensureThinkersPaused (specRunner idleWorker) 5 0 (twoRunners RunnerThinking RunnerThinking) =
     (Asserts 111, twoRunners RunnerThinking RunnerThinking)"
proof -
  have h1: "fst (ensureThinkersPaused (specRunner cooperativeWorker) 2 0
                  (twoRunners RunnerThinking RunnerCanceled)) = Returns ()"
    by (simp add: ensureThinkersPaused_def run_defs eval_defs)
  have h2: "runnerState (snd (ensureThinkersPaused (specRunner cooperativeWorker) 2 0
                  (twoRunners RunnerThinking RunnerCanceled))) 7 = RunnerPaused"
    by (simp add: ensureThinkersPaused_def run_defs eval_defs)
  have h3: "fst (ensureThinkersPaused (specRunner idleWorker) 2 0
                  (twoRunners RunnerThinking RunnerThinking)) = Blocks"
    by (simp add: ensureThinkersPaused_def idleWorker_def run_defs eval_defs)
  have h4: "events (snd (ensureThinkersPaused (specRunner idleWorker) 2 0
                  (twoRunners RunnerThinking RunnerThinking))) =
     [Locked MapsMutex, Unlocked MapsMutex,
      Call (RequestPauseCore True) 7, Call (RequestPauseCore True) 9,
      Call (WaitForPauseCore True) 7]"
    by (simp add: ensureThinkersPaused_def idleWorker_def run_defs eval_defs)
  have h5: "managerThread (twoRunners RunnerThinking RunnerCanceled) = 2"
       "managerThread (twoRunners RunnerThinking RunnerThinking) \<noteq> 5"
       "thinkerMap (twoRunners RunnerThinking RunnerCanceled) = [(3, 7), (5, 9)]"
       "events (twoRunners RunnerThinking RunnerCanceled) = []"
    by (simp_all add: eval_defs)
  from ensureThinkersPaused_two_phase
         [of "specRunner cooperativeWorker" 2 0 "twoRunners RunnerThinking RunnerCanceled"]
       ensureThinkersPaused_two_phase
         [of "specRunner idleWorker" 5 0 "twoRunners RunnerThinking RunnerThinking"]
  show ?thesis
    using h1 h2 h3 h4 h5 by simp
qed

subsection \<open>ensureThinkersResumed\<close>

lemma resumeIfPaused_events:
  "events (snd (resumeIfPaused impl r s)) =
     events s @ resumeEvents [(r, runnerState s r = RunnerPaused)]"
  by (simp add: resumeIfPaused_def andThen_def queryRunner_def Let_def log_def resumeEvents_def
      callRunner_def split: outcome.splits)

lemma forEachResume_events:
  "\<exists>bs. length bs \<le> length rs \<and>
     events (snd (forEachRunner (resumeIfPaused impl) rs s)) = events s @ resumeEvents (zip rs bs) \<and>
     (fst (forEachRunner (resumeIfPaused impl) rs s) = Returns () \<longrightarrow> length bs = length rs)"
proof (induction rs arbitrary: s)
  case Nil
  then show ?case by (simp add: resumeEvents_def)
next
  case (Cons r rs)
  let ?b = "runnerState s r = RunnerPaused"
  show ?case
  proof (cases "fst (resumeIfPaused impl r s) = Returns ()")
    case True
    from Cons.IH [of "snd (resumeIfPaused impl r s)"] obtain bs where
      bs: "length bs \<le> length rs"
        "events (snd (forEachRunner (resumeIfPaused impl) rs (snd (resumeIfPaused impl r s)))) =
           events (snd (resumeIfPaused impl r s)) @ resumeEvents (zip rs bs)"
        "fst (forEachRunner (resumeIfPaused impl) rs (snd (resumeIfPaused impl r s))) = Returns ()
           \<longrightarrow> length bs = length rs"
      by blast
    have "forEachRunner (resumeIfPaused impl) (r # rs) s =
            forEachRunner (resumeIfPaused impl) rs (snd (resumeIfPaused impl r s))"
      by (rule forEachRunner_Cons_Returns) (rule True)
    with bs show ?thesis
      by (intro exI [of _ "?b # bs"])
         (simp add: resumeIfPaused_events resumeEvents_def)
  next
    case False
    then have "forEachRunner (resumeIfPaused impl) (r # rs) s = resumeIfPaused impl r s"
      by (rule forEachRunner_Cons_stops)
    with False show ?thesis
      by (intro exI [of _ "[?b]"]) (simp add: resumeIfPaused_events)
  qed
qed

lemma ensureThinkersResumed_unfold:
  "cur = managerThread s \<Longrightarrow>
   ensureThinkersResumed impl cur cp s =
     andThen (forEachRunner (resumeIfPaused impl) (map snd (thinkerMap s)))
       (\<lambda>u s2. (Returns (), log (Unlocked MapsMutex) s2))
       (log (Locked MapsMutex) s)"
  by (simp add: ensureThinkersResumed_def andThen_managerCheck Let_def log_def)

lemma ensureThinkersResumed_wrong_thread:
  "cur \<noteq> managerThread s \<Longrightarrow> ensureThinkersResumed impl cur cp s = (Asserts 140, s)"
  by (simp add: ensureThinkersResumed_def andThen_managerCheck)

lemma ensureThinkersResumed_events:
  assumes "cur = managerThread s"
  shows "\<exists>bs. length bs \<le> length (thinkerMap s) \<and>
           (fst (ensureThinkersResumed impl cur cp s) = Returns () \<longrightarrow>
              length bs = length (thinkerMap s)) \<and>
           events (snd (ensureThinkersResumed impl cur cp s)) =
             events s @ [Locked MapsMutex] @ resumeEvents (zip (map snd (thinkerMap s)) bs)
               @ (if fst (ensureThinkersResumed impl cur cp s) = Returns ()
                  then [Unlocked MapsMutex] else [])"
proof -
  let ?rs = "map snd (thinkerMap s)"
  let ?s0 = "log (Locked MapsMutex) s"
  let ?loop = "forEachRunner (resumeIfPaused impl) ?rs ?s0"
  from forEachResume_events [of ?rs impl ?s0] obtain bs where
    bs: "length bs \<le> length ?rs"
        "events (snd ?loop) = events ?s0 @ resumeEvents (zip ?rs bs)"
        "fst ?loop = Returns () \<longrightarrow> length bs = length ?rs"
    by blast
  show ?thesis
  proof (cases "fst ?loop = Returns ()")
    case True
    have run: "ensureThinkersResumed impl cur cp s = (Returns (), log (Unlocked MapsMutex) (snd ?loop))"
      unfolding ensureThinkersResumed_unfold [OF assms] by (rule andThen_Returns) (rule True)
    from bs True show ?thesis
      by (intro exI [of _ bs]) (simp add: run log_def)
  next
    case False
    then have run: "ensureThinkersResumed impl cur cp s = ?loop"
      by (simp only: ensureThinkersResumed_unfold [OF assms])
         (cases ?loop, auto simp: andThen_def split: outcome.splits)
    from bs False show ?thesis
      by (intro exI [of _ bs]) (simp add: run log_def)
  qed
qed

lemma resumeIfPaused_inspects:
  "resumeIfPaused impl r s =
     (if runnerState s r = RunnerPaused
      then callRunner impl (RequestResumeCore True) r (log (Query IsPaused r True) s)
      else (Returns (), log (Query IsPaused r False) s))"
  by (simp add: resumeIfPaused_def andThen_def queryRunner_def Let_def)

lemma resumeIfPaused_others:
  assumes "resumeIsLocal impl" and "fst (resumeIfPaused impl r s) = Returns ()"
  shows "r' \<noteq> r \<or> runnerState s r \<noteq> RunnerPaused \<Longrightarrow>
         runnerState (snd (resumeIfPaused impl r s)) r' = runnerState s r'"
  using assms
  by (auto simp: resumeIfPaused_inspects callRunner_def Let_def log_def resumeIsLocal_def
      split: if_splits outcome.splits)

lemma forEachResume_local:
  assumes "resumeIsLocal impl"
  shows "distinct rs \<Longrightarrow> fst (forEachRunner (resumeIfPaused impl) rs s) = Returns () \<Longrightarrow>
     events (snd (forEachRunner (resumeIfPaused impl) rs s)) =
       events s @ resumeEvents (map (\<lambda>r. (r, runnerState s r = RunnerPaused)) rs) \<and>
     (\<forall>r. runnerState s r \<noteq> RunnerPaused \<or> r \<notin> set rs \<longrightarrow>
          runnerState (snd (forEachRunner (resumeIfPaused impl) rs s)) r = runnerState s r)"
proof (induction rs arbitrary: s)
  case Nil
  then show ?case by (simp add: resumeEvents_def)
next
  case (Cons r rs)
  let ?s1 = "snd (resumeIfPaused impl r s)"
  have ok: "fst (resumeIfPaused impl r s) = Returns ()"
    using Cons.prems(2) by (cases "resumeIfPaused impl r s") (auto split: outcome.splits)
  have run: "forEachRunner (resumeIfPaused impl) (r # rs) s = forEachRunner (resumeIfPaused impl) rs ?s1"
    by (rule forEachRunner_Cons_Returns) (rule ok)
  have same: "r' \<noteq> r \<or> runnerState s r \<noteq> RunnerPaused \<Longrightarrow> runnerState ?s1 r' = runnerState s r'" for r'
    by (rule resumeIfPaused_others [OF assms ok])
  from Cons.prems have d: "distinct rs" "r \<notin> set rs"
    by simp_all
  from Cons.prems(2) have ret: "fst (forEachRunner (resumeIfPaused impl) rs ?s1) = Returns ()"
    by (simp only: run)
  note ih = Cons.IH [OF d(1) ret]
  have m: "map (\<lambda>r. (r, runnerState ?s1 r = RunnerPaused)) rs =
           map (\<lambda>r. (r, runnerState s r = RunnerPaused)) rs"
  proof (rule map_cong [OF refl])
    fix x
    assume "x \<in> set rs"
    with d(2) have "x \<noteq> r \<or> runnerState s r \<noteq> RunnerPaused"
      by auto
    then have "runnerState ?s1 x = runnerState s x"
      by (rule same)
    then show "(x, runnerState ?s1 x = RunnerPaused) = (x, runnerState s x = RunnerPaused)"
      by simp
  qed
  have ev: "events (snd (forEachRunner (resumeIfPaused impl) (r # rs) s)) =
       events s @ resumeEvents (map (\<lambda>r. (r, runnerState s r = RunnerPaused)) (r # rs))"
    using ih m by (simp only: run) (simp add: resumeIfPaused_events resumeEvents_def)
  have st: "runnerState (snd (forEachRunner (resumeIfPaused impl) (r # rs) s)) r' = runnerState s r'"
    if "runnerState s r' \<noteq> RunnerPaused \<or> r' \<notin> set (r # rs)" for r'
  proof -
    from that have a: "r' \<noteq> r \<or> runnerState s r \<noteq> RunnerPaused"
      by auto
    then have b: "runnerState ?s1 r' = runnerState s r'"
      by (rule same)
    from that d(2) have "runnerState ?s1 r' \<noteq> RunnerPaused \<or> r' \<notin> set rs"
      unfolding b by auto
    with ih have "runnerState (snd (forEachRunner (resumeIfPaused impl) rs ?s1)) r' = runnerState ?s1 r'"
      by blast
    then show ?thesis
      by (simp only: run b)
  qed
  from ev st show ?case
    by blast
qed

lemma resumeIfPaused_fun:
  "resumeIfPaused impl =
     (\<lambda>r s'. if runnerState s' r = RunnerPaused
              then callRunner impl (RequestResumeCore True) r (log (Query IsPaused r True) s')
              else (Returns (), log (Query IsPaused r False) s'))"
  by (intro ext) (rule resumeIfPaused_inspects)

lemma ensureThinkersResumed_loop:
  "cur = managerThread s \<Longrightarrow>
   ensureThinkersResumed impl cur cp s =
     (case forEachRunner (resumeIfPaused impl) (map snd (thinkerMap s)) (log (Locked MapsMutex) s) of
        (Returns u, s') \<Rightarrow> (Returns (), log (Unlocked MapsMutex) s')
      | (Asserts cp', s') \<Rightarrow> (Asserts cp', s')
      | (Blocks, s') \<Rightarrow> (Blocks, s'))"
  by (simp add: ensureThinkersResumed_unfold andThen_def log_def split: prod.splits outcome.splits)

lemma ensureThinkersResumed_local:
  assumes cur: "cur = managerThread s" and d: "distinct (map snd (thinkerMap s))"
    and loc: "resumeIsLocal impl" and ret: "fst (ensureThinkersResumed impl cur cp s) = Returns ()"
  shows "events (snd (ensureThinkersResumed impl cur cp s)) =
           events s @ [Locked MapsMutex]
             @ resumeEvents (map (\<lambda>r. (r, runnerState s r = RunnerPaused)) (map snd (thinkerMap s)))
             @ [Unlocked MapsMutex] \<and>
         (\<forall>r. runnerState s r \<noteq> RunnerPaused \<longrightarrow>
              runnerState (snd (ensureThinkersResumed impl cur cp s)) r = runnerState s r)"
proof -
  let ?rs = "map snd (thinkerMap s)"
  let ?s0 = "log (Locked MapsMutex) s"
  let ?loop = "forEachRunner (resumeIfPaused impl) ?rs ?s0"
  have loopret: "fst ?loop = Returns ()"
    using ret unfolding ensureThinkersResumed_loop [OF cur]
    by (cases ?loop) (auto split: outcome.splits)
  then have run: "ensureThinkersResumed impl cur cp s = (Returns (), log (Unlocked MapsMutex) (snd ?loop))"
    unfolding ensureThinkersResumed_loop [OF cur]
    by (cases ?loop) (auto split: outcome.splits)
  from forEachResume_local [OF loc d loopret] show ?thesis
    by (simp add: run log_def)
qed

text \<open>
  Claim C8. Called off the controller thread, \<^verbatim>\<open>ensureThinkersResumed\<close> dies in its first
  assertion. On it, it locks the maps mutex and goes through the Runners of ThinkerMap as
  they are at that moment, in order. Each is inspected in the state the call has reached
  by then: if its state is Paused there, the resume request that accepts a canceled Runner
  is issued to it; if it is in any other state, Canceled included, the answer of
  \<^verbatim>\<open>isPaused\<close> is logged and nothing is done to it. No other call to a Runner is made, so no
  Runner outside the map is contacted; the mutex is unlocked when all were inspected, and
  the trace stops at a request that does not return. Where every Runner is registered
  once and a resume request changes the state of no Runner but its own, the requests go
  to exactly the Runners that were Paused when the call began, and every Runner that was
  not Paused then has the same state when the call returns.
\<close>

theorem ensureThinkersResumed_only_paused:
  "(cur \<noteq> managerThread s \<longrightarrow> ensureThinkersResumed impl cur cp s = (Asserts 140, s)) \<and>
   (cur = managerThread s \<longrightarrow>
      ensureThinkersResumed impl cur cp s =
        (case forEachRunner
                (\<lambda>r s'. if runnerState s' r = RunnerPaused
                         then callRunner impl (RequestResumeCore True) r (log (Query IsPaused r True) s')
                         else (Returns (), log (Query IsPaused r False) s'))
                (map snd (thinkerMap s)) (log (Locked MapsMutex) s) of
           (Returns u, s') \<Rightarrow> (Returns (), log (Unlocked MapsMutex) s')
         | (Asserts cp', s') \<Rightarrow> (Asserts cp', s')
         | (Blocks, s') \<Rightarrow> (Blocks, s')) \<and>
      (\<exists>bs. length bs \<le> length (thinkerMap s) \<and>
         (fst (ensureThinkersResumed impl cur cp s) = Returns () \<longrightarrow>
            length bs = length (thinkerMap s)) \<and>
         events (snd (ensureThinkersResumed impl cur cp s)) =
           events s @ [Locked MapsMutex] @ resumeEvents (zip (map snd (thinkerMap s)) bs)
             @ (if fst (ensureThinkersResumed impl cur cp s) = Returns ()
                then [Unlocked MapsMutex] else []))) \<and>
   (cur = managerThread s \<and> distinct (map snd (thinkerMap s)) \<and> resumeIsLocal impl \<and>
    fst (ensureThinkersResumed impl cur cp s) = Returns () \<longrightarrow>
      events (snd (ensureThinkersResumed impl cur cp s)) =
        events s @ [Locked MapsMutex]
          @ resumeEvents (map (\<lambda>r. (r, runnerState s r = RunnerPaused)) (map snd (thinkerMap s)))
          @ [Unlocked MapsMutex] \<and>
      (\<forall>r. runnerState s r \<noteq> RunnerPaused \<longrightarrow>
           runnerState (snd (ensureThinkersResumed impl cur cp s)) r = runnerState s r))"
proof (intro conjI impI)
  assume "cur \<noteq> managerThread s"
  then show "ensureThinkersResumed impl cur cp s = (Asserts 140, s)"
    by (rule ensureThinkersResumed_wrong_thread)
next
  assume cur: "cur = managerThread s"
  show "ensureThinkersResumed impl cur cp s =
        (case forEachRunner
                (\<lambda>r s'. if runnerState s' r = RunnerPaused
                         then callRunner impl (RequestResumeCore True) r (log (Query IsPaused r True) s')
                         else (Returns (), log (Query IsPaused r False) s'))
                (map snd (thinkerMap s)) (log (Locked MapsMutex) s) of
           (Returns u, s') \<Rightarrow> (Returns (), log (Unlocked MapsMutex) s')
         | (Asserts cp', s') \<Rightarrow> (Asserts cp', s')
         | (Blocks, s') \<Rightarrow> (Blocks, s'))"
    unfolding ensureThinkersResumed_loop [OF cur] resumeIfPaused_fun ..
  show "\<exists>bs. length bs \<le> length (thinkerMap s) \<and>
         (fst (ensureThinkersResumed impl cur cp s) = Returns () \<longrightarrow>
            length bs = length (thinkerMap s)) \<and>
         events (snd (ensureThinkersResumed impl cur cp s)) =
           events s @ [Locked MapsMutex] @ resumeEvents (zip (map snd (thinkerMap s)) bs)
             @ (if fst (ensureThinkersResumed impl cur cp s) = Returns ()
                then [Unlocked MapsMutex] else [])"
    by (rule ensureThinkersResumed_events [OF cur])
next
  assume a: "cur = managerThread s \<and> distinct (map snd (thinkerMap s)) \<and> resumeIsLocal impl \<and>
    fst (ensureThinkersResumed impl cur cp s) = Returns ()"
  then have "events (snd (ensureThinkersResumed impl cur cp s)) =
        events s @ [Locked MapsMutex]
          @ resumeEvents (map (\<lambda>r. (r, runnerState s r = RunnerPaused)) (map snd (thinkerMap s)))
          @ [Unlocked MapsMutex] \<and>
      (\<forall>r. runnerState s r \<noteq> RunnerPaused \<longrightarrow>
           runnerState (snd (ensureThinkersResumed impl cur cp s)) r = runnerState s r)"
    by (intro ensureThinkersResumed_local) blast+
  then show "events (snd (ensureThinkersResumed impl cur cp s)) =
        events s @ [Locked MapsMutex]
          @ resumeEvents (map (\<lambda>r. (r, runnerState s r = RunnerPaused)) (map snd (thinkerMap s)))
          @ [Unlocked MapsMutex]"
    and "\<forall>r. runnerState s r \<noteq> RunnerPaused \<longrightarrow>
           runnerState (snd (ensureThinkersResumed impl cur cp s)) r = runnerState s r"
    by simp_all
qed

lemma specRunner_resumeIsLocal: "resumeIsLocal (specRunner worker)"
  by (auto simp: resumeIsLocal_def specRunner_def split: if_splits)

text \<open>The theorem at work: of three registered Runners, the thinking Runner 7 and the
  canceled Runner 11 are asked and left as they are, the paused Runner 9 is asked and
  resumed; and a call from the wrong thread.\<close>

theorem ensureThinkersResumed_only_paused_witness:
  "distinct (map snd (thinkerMap threeRunners)) \<and>
   resumeIsLocal (specRunner cooperativeWorker) \<and>
   fst (ensureThinkersResumed (specRunner cooperativeWorker) 2 0 threeRunners) = Returns () \<and>
   events (snd (ensureThinkersResumed (specRunner cooperativeWorker) 2 0 threeRunners)) =
     [Locked MapsMutex, Query IsPaused 7 False, Query IsPaused 9 True,
      Call (RequestResumeCore True) 9, Query IsPaused 11 False, Unlocked MapsMutex] \<and>
   runnerState threeRunners 7 = RunnerThinking \<and>
   runnerState (snd (ensureThinkersResumed (specRunner cooperativeWorker) 2 0 threeRunners)) 7
     = RunnerThinking \<and>
   runnerState threeRunners 9 = RunnerPaused \<and>
   runnerState (snd (ensureThinkersResumed (specRunner cooperativeWorker) 2 0 threeRunners)) 9
     = RunnerResuming \<and>
   runnerState threeRunners 11 = RunnerCanceled \<and>
   runnerState (snd (ensureThinkersResumed (specRunner cooperativeWorker) 2 0 threeRunners)) 11
     = RunnerCanceled \<and>
   ensureThinkersResumed (specRunner cooperativeWorker) 5 0 threeRunners = (Asserts 140, threeRunners)"
proof -
  let ?run = "ensureThinkersResumed (specRunner cooperativeWorker) 2 0 threeRunners"
  have h: "managerThread threeRunners = 2" "events threeRunners = []"
      "map snd (thinkerMap threeRunners) = [7, 9, 11]"
      "runnerState threeRunners 7 = RunnerThinking" "runnerState threeRunners 9 = RunnerPaused"
      "runnerState threeRunners 11 = RunnerCanceled"
    by (simp_all add: threeRunners_def)
  have d: "distinct (map snd (thinkerMap threeRunners))"
    by (simp add: h)
  have loc: "resumeIsLocal (specRunner cooperativeWorker)"
    by (rule specRunner_resumeIsLocal)
  have ret: "fst ?run = Returns ()"
    by (simp add: ensureThinkersResumed_def resumeIfPaused_def run_defs threeRunners_def log_def Let_def)
  have nine: "runnerState (snd ?run) 9 = RunnerResuming"
    by (simp add: ensureThinkersResumed_def resumeIfPaused_def run_defs threeRunners_def log_def Let_def)
  have c2: "2 = managerThread threeRunners"
    by (simp add: h)
  note inst = ensureThinkersResumed_only_paused [of 2 threeRunners "specRunner cooperativeWorker" 0]
  have closed: "events (snd ?run) =
        events threeRunners @ [Locked MapsMutex]
          @ resumeEvents (map (\<lambda>r. (r, runnerState threeRunners r = RunnerPaused))
                              (map snd (thinkerMap threeRunners)))
          @ [Unlocked MapsMutex] \<and>
      (\<forall>r. runnerState threeRunners r \<noteq> RunnerPaused \<longrightarrow>
           runnerState (snd ?run) r = runnerState threeRunners r)"
    by (intro mp [OF conjunct2 [OF conjunct2 [OF inst]]] conjI c2 d loc ret)
  then have ev: "events (snd ?run) =
     [Locked MapsMutex, Query IsPaused 7 False, Query IsPaused 9 True,
      Call (RequestResumeCore True) 9, Query IsPaused 11 False, Unlocked MapsMutex]"
    by (simp add: h resumeEvents_def)
  from closed have untouched: "runnerState (snd ?run) 7 = RunnerThinking"
      "runnerState (snd ?run) 11 = RunnerCanceled"
    by (simp_all add: h)
  from ensureThinkersResumed_only_paused [of 5 threeRunners "specRunner cooperativeWorker" 0]
  have wrong: "ensureThinkersResumed (specRunner cooperativeWorker) 5 0 threeRunners =
                 (Asserts 140, threeRunners)"
    by (simp add: h)
  from d loc ret ev untouched nine wrong h(4,5,6) show ?thesis
    by simp
qed


subsection \<open>The destructor\<close>

lemma hopefullyTerminal_result:
  "hopefullyTerminal r s =
     (if isTerminal (runnerState s r) then Returns True else Asserts 342,
      s\<lparr>events := events s @ terminalQueries s r\<rparr>)"
  by (simp add: hopefullyTerminal_def andThen_def queryRunner_def hopefully_def Let_def log_def
      isTerminal_def terminalQueries_def)

lemma terminalQueries_events [simp]:
  "terminalQueries (s\<lparr>events := evs\<rparr>) = terminalQueries s"
  by (rule ext) (simp add: terminalQueries_def)

lemma destructorLoop_terminal:
  "list_all (\<lambda>r. isTerminal (runnerState s r)) rs \<Longrightarrow>
   destructorLoop rs anyRunners s =
     (Returns (anyRunners \<or> rs \<noteq> []), s\<lparr>events := events s @ concat (map (terminalQueries s) rs)\<rparr>)"
proof (induction rs arbitrary: s anyRunners)
  case Nil
  then show ?case by simp
next
  case (Cons r rs)
  then show ?case by (simp add: hopefullyTerminal_result)
qed

lemma destructorLoop_not_terminal:
  "\<not> list_all (\<lambda>r. isTerminal (runnerState s r)) rs \<Longrightarrow>
   fst (destructorLoop rs anyRunners s) = Asserts 342"
proof (induction rs arbitrary: s anyRunners)
  case Nil
  then show ?case by simp
next
  case (Cons r rs)
  then show ?case by (cases "isTerminal (runnerState s r)") (simp_all add: hopefullyTerminal_result)
qed

lemma destroy_terminal:
  "cur = managerThread s \<Longrightarrow> allTerminal s \<Longrightarrow>
   destroyThinkerManager cur s =
     (Returns (),
      s\<lparr>poolQueue := (if thinkerMap s = [] then poolQueue s else []),
        events := events s @ [Locked MapsMutex] @ concat (map (terminalQueries s) (map snd (thinkerMap s)))
                  @ [Unlocked MapsMutex] @ (if thinkerMap s = [] then [] else [PoolWaitForDone])\<rparr>)"
proof -
  assume cur: "cur = managerThread s" and tm: "allTerminal s"
  have "list_all (\<lambda>r. isTerminal (runnerState (log (Locked MapsMutex) s) r)) (map snd (thinkerMap s))"
    using tm by (simp add: allTerminal_def list_all_iff log_def)
  from destructorLoop_terminal [OF this, of False] cur show ?thesis
    by (simp add: destroyThinkerManager_def andThen_managerCheck Let_def)
       (simp add: andThen_def log_def poolWaitForDone_def)
qed

lemma destroy_not_terminal:
  "cur = managerThread s \<Longrightarrow> \<not> allTerminal s \<Longrightarrow> fst (destroyThinkerManager cur s) = Asserts 342"
proof -
  assume cur: "cur = managerThread s" and tm: "\<not> allTerminal s"
  have "\<not> list_all (\<lambda>r. isTerminal (runnerState (log (Locked MapsMutex) s) r)) (map snd (thinkerMap s))"
    using tm by (simp add: allTerminal_def list_all_iff log_def)
  from destructorLoop_not_terminal [OF this, of False] cur show ?thesis
    by (simp add: destroyThinkerManager_def andThen_managerCheck Let_def)
       (auto simp: andThen_def log_def split: prod.splits outcome.splits)
qed

lemma destroy_wrong_thread:
  "cur \<noteq> managerThread s \<Longrightarrow> destroyThinkerManager cur s = (Asserts 330, s)"
  by (simp add: destroyThinkerManager_def andThen_managerCheck)

text \<open>
  Claim C9, as amended. The destructor returns exactly when it runs on the Manager's
  thread and every Runner registered in ThinkerMap is Canceled or Finished; a registered
  Runner in any other state makes it die in the assertion of line 342. When it returns it
  has asked the registered Runners for their state under the maps mutex, and it has
  waited for the pool to drain only if at least one Runner was registered: with an empty
  ThinkerMap it returns without waiting and leaves the pool's work as it is.
\<close>

theorem destructor_waits_only_with_runners:
  "((fst (destroyThinkerManager cur s) = Returns ()) = (cur = managerThread s \<and> allTerminal s)) \<and>
   (cur = managerThread s \<and> \<not> allTerminal s \<longrightarrow> fst (destroyThinkerManager cur s) = Asserts 342) \<and>
   (fst (destroyThinkerManager cur s) = Returns () \<longrightarrow>
      snd (destroyThinkerManager cur s) =
        s\<lparr>poolQueue := (if thinkerMap s = [] then poolQueue s else []),
          events := events s @ [Locked MapsMutex]
                    @ concat (map (terminalQueries s) (map snd (thinkerMap s)))
                    @ [Unlocked MapsMutex]
                    @ (if thinkerMap s = [] then [] else [PoolWaitForDone])\<rparr>)"
proof -
  consider (wrong) "cur \<noteq> managerThread s"
    | (bad) "cur = managerThread s" "\<not> allTerminal s"
    | (good) "cur = managerThread s" "allTerminal s"
    by blast
  then show ?thesis
  proof cases
    case wrong
    then show ?thesis by (simp add: destroy_wrong_thread)
  next
    case bad
    then show ?thesis by (simp add: destroy_not_terminal)
  next
    case good
    then show ?thesis by (simp add: destroy_terminal)
  qed
qed

text \<open>The theorem at work: a canceled and a finished Runner, and a thinking one.\<close>

theorem destructor_waits_only_with_runners_witness:
  "allTerminal (twoRunners RunnerCanceled RunnerFinished) \<and>
   fst (destroyThinkerManager 2 (twoRunners RunnerCanceled RunnerFinished)) = Returns () \<and>
   poolQueue (snd (destroyThinkerManager 2 (twoRunners RunnerCanceled RunnerFinished))) = [] \<and>
   events (snd (destroyThinkerManager 2 (twoRunners RunnerCanceled RunnerFinished))) =
     [Locked MapsMutex, Query IsCanceled 7 True, Query IsCanceled 9 False, Query IsFinished 9 True,
      Unlocked MapsMutex, PoolWaitForDone] \<and>
   \<not> allTerminal (twoRunners RunnerThinking RunnerFinished) \<and>
   fst (destroyThinkerManager 2 (twoRunners RunnerThinking RunnerFinished)) = Asserts 342"
proof -
  have h1: "allTerminal (twoRunners RunnerCanceled RunnerFinished)"
    by (simp add: allTerminal_def isTerminal_def eval_defs)
  have h2: "\<not> allTerminal (twoRunners RunnerThinking RunnerFinished)"
    by (simp add: allTerminal_def isTerminal_def eval_defs)
  have h3: "managerThread (twoRunners RunnerCanceled RunnerFinished) = 2"
       "managerThread (twoRunners RunnerThinking RunnerFinished) = 2"
    by (simp_all add: eval_defs)
  from destructor_waits_only_with_runners [of 2 "twoRunners RunnerCanceled RunnerFinished"]
       destructor_waits_only_with_runners [of 2 "twoRunners RunnerThinking RunnerFinished"]
  show ?thesis
    unfolding h3 using h1 h2 by (simp add: terminalQueries_def eval_defs)
qed

text \<open>Claim C9 as stated fails: after Runner 7 has left ThinkerMap, while its runnable is
  still with the pool, the destructor returns without waiting for the pool.\<close>

theorem destructor_no_wait_counterexample:
  "thinkerMap afterRunnerLeft = [] \<and>
   poolQueue afterRunnerLeft = [7] \<and>
   fst (destroyThinkerManager 2 afterRunnerLeft) = Returns () \<and>
   poolQueue (snd (destroyThinkerManager 2 afterRunnerLeft)) = [7] \<and>
   PoolWaitForDone \<notin> set (events (snd (destroyThinkerManager 2 afterRunnerLeft)))"
proof -
  have s: "afterRunnerLeft =
      \<lparr>managerThread = 2, thinkerMap = [], runnerSetToPush = [],
       thinkerState = (\<lambda>t. ThinkerOwnedByRunner)(3 := ThinkerCanceled),
       runnerThinker = (\<lambda>r. 0)(7 := 3),
       runnerState = (\<lambda>r. RunnerCanceled), poolQueue = [7],
       events = [Locked MapsMutex, Unlocked MapsMutex, PoolStart 7, Locked MapsMutex,
                 Unlocked MapsMutex]\<rparr>"
    by (simp add: afterRunnerLeft_def createRunnerForThinker_def newThinkerRunner_def
        newThinkerRunnerProxy_def poolStart_def andThen_def managerCheck eval_defs)
  show ?thesis
    unfolding s
    by (simp add: destroyThinkerManager_def andThen_def managerCheck log_def Let_def)
qed

subsection \<open>The push protocol\<close>


lemma set_foldl_qset_insert:
  "set (foldl (\<lambda>q r. qset_insert r q) q0 batch) = set q0 \<union> set batch"
  by (induction batch arbitrary: q0) (auto simp: qset_insert_def)

lemma set_arrived: "set (arrived batch) = set batch"
  by (simp add: arrived_def set_foldl_qset_insert)

lemma drainPushes_result:
  "drainPushes runner s =
     (case runner of None \<Rightarrow> False | Some r \<Rightarrow> r \<in> set (runnerSetToPush s),
      s\<lparr>runnerSetToPush := [], events := events s @ drainEvents (runnerSetToPush s)\<rparr>)"
  by (simp add: drainPushes_def Let_def log_def drainEvents_def)

lemma pushLoop_None:
  "pushLoop None arrivals s =
     (Returns (),
      s\<lparr>runnerSetToPush := [],
        events := events s @ drainEvents (runnerSetToPush s) @ [Unlocked PushThreadMutex]\<rparr>)"
  by (cases arrivals) (simp_all add: drainPushes_result log_def)

lemma pushLoop_found:
  "r \<in> set (runnerSetToPush s) \<Longrightarrow>
   pushLoop (Some r) arrivals s =
     (Returns (),
      s\<lparr>runnerSetToPush := [],
        events := events s @ drainEvents (runnerSetToPush s) @ [Unlocked PushThreadMutex]\<rparr>)"
  by (cases arrivals) (simp_all add: drainPushes_result log_def)

lemma pushLoop_waits:
  "r \<notin> set (runnerSetToPush s) \<Longrightarrow>
   pushLoop (Some r) arrivals s =
     (if arrives r arrivals then Returns () else Blocks,
      s\<lparr>runnerSetToPush := [],
        events := events s @ drainEvents (runnerSetToPush s)
                  @ concat (map waitAndDrain (drainedBatches r arrivals))
                  @ (if arrives r arrivals then [Unlocked PushThreadMutex]
                     else [Wait ThreadsNeedPushing])\<rparr>)"
proof (induction arrivals arbitrary: s)
  case Nil
  then show ?case
    by (simp add: drainPushes_result waitCondition_def log_def Let_def arrives_def drainedBatches_def)
next
  case (Cons b later)
  let ?s'' = "s\<lparr>runnerSetToPush := arrived b,
                events := events s @ drainEvents (runnerSetToPush s)
                          @ [Wait ThreadsNeedPushing, Locked PushThreadMutex]\<rparr>"
  have step: "pushLoop (Some r) (b # later) s = pushLoop (Some r) later ?s''"
    using Cons.prems
    by (simp add: drainPushes_result waitCondition_def workersArrive_def log_def Let_def arrived_def)
  show ?case
  proof (cases "r \<in> set b")
    case True
    then have "r \<in> set (runnerSetToPush ?s'')"
      by (simp add: set_arrived)
    from pushLoop_found [OF this, of later] True show ?thesis
      by (simp del: pushLoop.simps add: step arrives_def drainedBatches_def waitAndDrain_def)
  next
    case False
    then have "r \<notin> set (runnerSetToPush ?s'')"
      by (simp add: set_arrived)
    from Cons.IH [OF this] False show ?thesis
      by (simp del: pushLoop.simps add: step arrives_def drainedBatches_def waitAndDrain_def)
  qed
qed

lemma pushed_when_arrives:
  "arrives r arrivals \<Longrightarrow>
   Call DoThreadPushIfNecessary r \<in> set (concat (map waitAndDrain (drainedBatches r arrivals)))"
proof (induction arrivals)
  case Nil
  then show ?case by (simp add: arrives_def)
next
  case (Cons b later)
  then show ?case
    by (cases "r \<in> set b")
       (auto simp: arrives_def drainedBatches_def waitAndDrain_def drainEvents_def set_arrived)
qed

lemma notManagerCheck:
  "hopefullyCurrentThreadIsNotManager cur cp s =
     (if cur \<noteq> managerThread s then (Returns True, s) else (Asserts cp, s))"
  by (simp add: hopefullyCurrentThreadIsNotManager_def hopefullyThreadIsNotManager_def hopefully_def)

lemma waitForPushToThread_result:
  "cur \<noteq> managerThread s \<Longrightarrow>
   waitForPushToThread cur runner others s =
     (case others (s\<lparr>runnerSetToPush := qset_insert runner (runnerSetToPush s),
                     events := events s @ [Locked PushThreadMutex, WakeOne ThreadsNeedPushing,
                                           EmitPushToThreadMayBeNeeded, Wait ThreadsWerePushed]\<rparr>) of
        None \<Rightarrow> (Blocks,
                 s\<lparr>runnerSetToPush := qset_insert runner (runnerSetToPush s),
                   events := events s @ [Locked PushThreadMutex, WakeOne ThreadsNeedPushing,
                                         EmitPushToThreadMayBeNeeded, Wait ThreadsWerePushed]\<rparr>)
      | Some s' \<Rightarrow> (Returns (),
                    s'\<lparr>events := events s' @ [Locked PushThreadMutex, Unlocked PushThreadMutex]\<rparr>))"
  by (simp add: waitForPushToThread_def andThen_def notManagerCheck waitCondition_def Let_def log_def
      split: option.splits)

lemma processThreadPushesUntil_unfold:
  "cur = managerThread s \<Longrightarrow>
   processThreadPushesUntil cur runner arrivals s =
     pushLoop runner arrivals (s\<lparr>events := events s @ [Locked PushThreadMutex]\<rparr>)"
  by (simp add: processThreadPushesUntil_def andThen_def hopefullyCurrentThreadIsManager_def
      hopefullyThreadIsManager_def hopefully_def log_def)

text \<open>
  Claim C6. Worker side: \<^verbatim>\<open>waitForPushToThread\<close>, called off the Manager's thread, locks the
  push mutex, inserts its Runner into the set, wakes needs-push, emits the queued
  notification and sleeps on were-pushed; it returns only when woken, and dies in an
  assertion on the Manager's thread. Controller side: \<^verbatim>\<open>processThreadPushesUntil\<close>, on the
  Manager's thread, locks the push mutex and drains: it pushes every Runner of the set,
  clears the set and broadcasts were-pushed. With a null target it unlocks and returns
  after this one drain. With a target Runner it returns after the first drain that held
  the target, and until then sleeps on needs-push between drains; the target has been
  pushed when it returns, and it never returns if the target never arrives.
\<close>

theorem push_protocol:
  "(cur = managerThread s \<longrightarrow>
      waitForPushToThread cur runner others s = (Asserts 291, s) \<and>
      processThreadPushesUntil cur None arrivals s =
        (Returns (),
         s\<lparr>runnerSetToPush := [],
           events := events s @ [Locked PushThreadMutex] @ drainEvents (runnerSetToPush s)
                     @ [Unlocked PushThreadMutex]\<rparr>) \<and>
      processThreadPushesUntil cur (Some r) arrivals s =
        (if r \<in> set (runnerSetToPush s) \<or> arrives r arrivals then Returns () else Blocks,
         s\<lparr>runnerSetToPush := [],
           events := events s @ [Locked PushThreadMutex] @ drainEvents (runnerSetToPush s)
                     @ (if r \<in> set (runnerSetToPush s) then []
                        else concat (map waitAndDrain (drainedBatches r arrivals)))
                     @ (if r \<in> set (runnerSetToPush s) \<or> arrives r arrivals
                        then [Unlocked PushThreadMutex] else [Wait ThreadsNeedPushing])\<rparr>) \<and>
      (fst (processThreadPushesUntil cur (Some r) arrivals s) = Returns () \<longrightarrow>
         Call DoThreadPushIfNecessary r
           \<in> set (drop (length (events s)) (events (snd (processThreadPushesUntil cur (Some r) arrivals s)))))) \<and>
   (cur \<noteq> managerThread s \<longrightarrow>
      processThreadPushesUntil cur target arrivals s = (Asserts 303, s) \<and>
      runner \<in> set (qset_insert runner (runnerSetToPush s)) \<and>
      waitForPushToThread cur runner others s =
        (case others (s\<lparr>runnerSetToPush := qset_insert runner (runnerSetToPush s),
                        events := events s @ [Locked PushThreadMutex, WakeOne ThreadsNeedPushing,
                                              EmitPushToThreadMayBeNeeded, Wait ThreadsWerePushed]\<rparr>) of
           None \<Rightarrow> (Blocks,
                    s\<lparr>runnerSetToPush := qset_insert runner (runnerSetToPush s),
                      events := events s @ [Locked PushThreadMutex, WakeOne ThreadsNeedPushing,
                                            EmitPushToThreadMayBeNeeded, Wait ThreadsWerePushed]\<rparr>)
         | Some s' \<Rightarrow> (Returns (),
                       s'\<lparr>events := events s' @ [Locked PushThreadMutex, Unlocked PushThreadMutex]\<rparr>)))"
proof (intro conjI impI)
  assume cur: "cur = managerThread s"
  show "waitForPushToThread cur runner others s = (Asserts 291, s)"
    using cur by (simp add: waitForPushToThread_def andThen_def notManagerCheck)
  show "processThreadPushesUntil cur None arrivals s =
        (Returns (),
         s\<lparr>runnerSetToPush := [],
           events := events s @ [Locked PushThreadMutex] @ drainEvents (runnerSetToPush s)
                     @ [Unlocked PushThreadMutex]\<rparr>)"
    by (simp add: processThreadPushesUntil_unfold [OF cur] pushLoop_None)
  show some: "processThreadPushesUntil cur (Some r) arrivals s =
        (if r \<in> set (runnerSetToPush s) \<or> arrives r arrivals then Returns () else Blocks,
         s\<lparr>runnerSetToPush := [],
           events := events s @ [Locked PushThreadMutex] @ drainEvents (runnerSetToPush s)
                     @ (if r \<in> set (runnerSetToPush s) then []
                        else concat (map waitAndDrain (drainedBatches r arrivals)))
                     @ (if r \<in> set (runnerSetToPush s) \<or> arrives r arrivals
                        then [Unlocked PushThreadMutex] else [Wait ThreadsNeedPushing])\<rparr>)"
    by (cases "r \<in> set (runnerSetToPush s)")
       (simp_all add: processThreadPushesUntil_unfold [OF cur] pushLoop_found pushLoop_waits)
  assume "fst (processThreadPushesUntil cur (Some r) arrivals s) = Returns ()"
  then have "r \<in> set (runnerSetToPush s) \<or> arrives r arrivals"
    unfolding some by (simp split: if_splits)
  then show "Call DoThreadPushIfNecessary r
      \<in> set (drop (length (events s)) (events (snd (processThreadPushesUntil cur (Some r) arrivals s))))"
    unfolding some using pushed_when_arrives [of r arrivals]
    by (cases "r \<in> set (runnerSetToPush s)") (auto simp: drainEvents_def)
next
  assume cur: "cur \<noteq> managerThread s"
  show "processThreadPushesUntil cur target arrivals s = (Asserts 303, s)"
    using cur by (simp add: processThreadPushesUntil_def andThen_def hopefullyCurrentThreadIsManager_def
      hopefullyThreadIsManager_def hopefully_def)
  show "runner \<in> set (qset_insert runner (runnerSetToPush s))"
    by (simp add: qset_insert_def)
  show "waitForPushToThread cur runner others s =
        (case others (s\<lparr>runnerSetToPush := qset_insert runner (runnerSetToPush s),
                        events := events s @ [Locked PushThreadMutex, WakeOne ThreadsNeedPushing,
                                              EmitPushToThreadMayBeNeeded, Wait ThreadsWerePushed]\<rparr>) of
           None \<Rightarrow> (Blocks,
                    s\<lparr>runnerSetToPush := qset_insert runner (runnerSetToPush s),
                      events := events s @ [Locked PushThreadMutex, WakeOne ThreadsNeedPushing,
                                            EmitPushToThreadMayBeNeeded, Wait ThreadsWerePushed]\<rparr>)
         | Some s' \<Rightarrow> (Returns (),
                       s'\<lparr>events := events s' @ [Locked PushThreadMutex, Unlocked PushThreadMutex]\<rparr>))"
    by (rule waitForPushToThread_result [OF cur])
qed

text \<open>The theorem at work, with Runner 7 pending: one drain for a null target; target 9
  arriving during the second wait; a target that never arrives; calls from the wrong
  threads; and the handshake of the worker of Runner 8 with the controller.\<close>

theorem push_protocol_witness:
  "managerThread onePending = 2 \<and>
   processThreadPushesUntil 2 None [[8]] onePending =
     (Returns (),
      onePending\<lparr>runnerSetToPush := [],
        events := [Locked PushThreadMutex, Call DoThreadPushIfNecessary 7,
                   WakeAll ThreadsWerePushed, Unlocked PushThreadMutex]\<rparr>) \<and>
   processThreadPushesUntil 2 (Some 9) [[8], [9, 8], [6]] onePending =
     (Returns (),
      onePending\<lparr>runnerSetToPush := [],
        events := [Locked PushThreadMutex, Call DoThreadPushIfNecessary 7, WakeAll ThreadsWerePushed,
                   Wait ThreadsNeedPushing, Locked PushThreadMutex,
                   Call DoThreadPushIfNecessary 8, WakeAll ThreadsWerePushed,
                   Wait ThreadsNeedPushing, Locked PushThreadMutex,
                   Call DoThreadPushIfNecessary 9, Call DoThreadPushIfNecessary 8,
                   WakeAll ThreadsWerePushed, Unlocked PushThreadMutex]\<rparr>) \<and>
   fst (processThreadPushesUntil 2 (Some 9) [[8]] onePending) = Blocks \<and>
   processThreadPushesUntil 4 (Some 9) [[9]] onePending = (Asserts 303, onePending) \<and>
   waitForPushToThread 2 8 controllerPushes onePending = (Asserts 291, onePending) \<and>
   fst (waitForPushToThread 4 8 (\<lambda>s. None) onePending) = Blocks \<and>
   runnerSetToPush (snd (waitForPushToThread 4 8 (\<lambda>s. None) onePending)) = [7, 8] \<and>
   waitForPushToThread 4 8 controllerPushes onePending =
     (Returns (),
      onePending\<lparr>runnerSetToPush := [],
        events := [Locked PushThreadMutex, WakeOne ThreadsNeedPushing, EmitPushToThreadMayBeNeeded,
                   Wait ThreadsWerePushed,
                   Locked PushThreadMutex, Call DoThreadPushIfNecessary 7,
                   Call DoThreadPushIfNecessary 8, WakeAll ThreadsWerePushed,
                   Unlocked PushThreadMutex,
                   Locked PushThreadMutex, Unlocked PushThreadMutex]\<rparr>)"
proof -
  have m: "managerThread onePending = 2" "(4::nat) \<noteq> 2"
    by (simp_all add: onePending_def freshManager_def)
  have q: "runnerSetToPush onePending = [7]" "events onePending = []"
    by (simp_all add: onePending_def freshManager_def)
  have ctl: "controllerPushes
               (onePending\<lparr>runnerSetToPush := [7, 8],
                  events := [Locked PushThreadMutex, WakeOne ThreadsNeedPushing,
                             EmitPushToThreadMayBeNeeded, Wait ThreadsWerePushed]\<rparr>) =
             Some (onePending\<lparr>runnerSetToPush := [],
                     events := [Locked PushThreadMutex, WakeOne ThreadsNeedPushing,
                                EmitPushToThreadMayBeNeeded, Wait ThreadsWerePushed,
                                Locked PushThreadMutex, Call DoThreadPushIfNecessary 7,
                                Call DoThreadPushIfNecessary 8, WakeAll ThreadsWerePushed,
                                Unlocked PushThreadMutex]\<rparr>)"
    by (simp add: controllerPushes_def doThreadPushesIfNecessary_def processThreadPushesUntil_def
        andThen_def managerCheck hopefully_def drainPushes_def log_def Let_def m)
  from push_protocol [of 2 onePending 8 controllerPushes "[[8]]" 9 None]
  have a: "waitForPushToThread 2 8 controllerPushes onePending = (Asserts 291, onePending)"
      "processThreadPushesUntil 2 None [[8]] onePending =
         (Returns (),
          onePending\<lparr>runnerSetToPush := [],
            events := [Locked PushThreadMutex, Call DoThreadPushIfNecessary 7,
                       WakeAll ThreadsWerePushed, Unlocked PushThreadMutex]\<rparr>)"
      "fst (processThreadPushesUntil 2 (Some 9) [[8]] onePending) = Blocks"
    by (simp_all add: m q drainEvents_def arrives_def)
  from push_protocol [of 2 onePending 8 controllerPushes "[[8], [9, 8], [6]]" 9 None]
  have b: "processThreadPushesUntil 2 (Some 9) [[8], [9, 8], [6]] onePending =
     (Returns (),
      onePending\<lparr>runnerSetToPush := [],
        events := [Locked PushThreadMutex, Call DoThreadPushIfNecessary 7, WakeAll ThreadsWerePushed,
                   Wait ThreadsNeedPushing, Locked PushThreadMutex,
                   Call DoThreadPushIfNecessary 8, WakeAll ThreadsWerePushed,
                   Wait ThreadsNeedPushing, Locked PushThreadMutex,
                   Call DoThreadPushIfNecessary 9, Call DoThreadPushIfNecessary 8,
                   WakeAll ThreadsWerePushed, Unlocked PushThreadMutex]\<rparr>)"
    by (simp add: m q drainEvents_def arrives_def drainedBatches_def waitAndDrain_def arrived_def
        qset_insert_def)
  from push_protocol [of 4 onePending 8 "\<lambda>s. None" "[[9]]" 9 "Some 9"]
  have c: "processThreadPushesUntil 4 (Some 9) [[9]] onePending = (Asserts 303, onePending)"
      "fst (waitForPushToThread 4 8 (\<lambda>s. None) onePending) = Blocks"
      "runnerSetToPush (snd (waitForPushToThread 4 8 (\<lambda>s. None) onePending)) = [7, 8]"
    by (simp_all add: m q qset_insert_def)
  from push_protocol [of 4 onePending 8 controllerPushes "[]" 9 None]
  have d: "waitForPushToThread 4 8 controllerPushes onePending =
     (Returns (),
      onePending\<lparr>runnerSetToPush := [],
        events := [Locked PushThreadMutex, WakeOne ThreadsNeedPushing, EmitPushToThreadMayBeNeeded,
                   Wait ThreadsWerePushed,
                   Locked PushThreadMutex, Call DoThreadPushIfNecessary 7,
                   Call DoThreadPushIfNecessary 8, WakeAll ThreadsWerePushed,
                   Unlocked PushThreadMutex,
                   Locked PushThreadMutex, Unlocked PushThreadMutex]\<rparr>)"
    by (simp add: m q qset_insert_def ctl)
  from m a b c d show ?thesis
    by simp
qed

subsection \<open>requestAndWaitForCancelButAlreadyCanceledIsOkay\<close>


















subsection \<open>ensureThinkerFinished\<close>









lemmas finish_defs = ensureThinkerFinished_def finishRunner_def setThinkerState_def
  maybeGetRunnerForThinker_def


text \<open>A run in which Runner 7 is thinking when checked and is canceled while the controller
  waits: the call stops in the assertion of line 216 and does not return.\<close>

lemma ensureThinkerFinished_canceled_during_wait:
  "runnerState (oneRunner RunnerThinking) 7 \<noteq> RunnerCanceled \<and>
   fst (ensureThinkerFinished (specRunner canceledMeanwhile) 2 3 (oneRunner RunnerThinking))
     = Asserts 216 \<and>
   runnerState (snd (ensureThinkerFinished (specRunner canceledMeanwhile) 2 3
                       (oneRunner RunnerThinking))) 7 = RunnerCanceled \<and>
   thinkerState (snd (ensureThinkerFinished (specRunner canceledMeanwhile) 2 3
                        (oneRunner RunnerThinking))) 3 = ThinkerCanceled"
  by (simp add: finish_defs run_defs canceledMeanwhile_def eval_defs)

end
